theory Spec2Isabelle
  imports Main
begin

section \<open>Python string primitives used by the notebook\<close>

text \<open>
  Python strings are modelled as \<open>string\<close>: one \<open>char\<close> per code point, for code
  points below 256. \<open>isspace\<close> is \<open>str.isspace\<close> on that range, the class of characters
  that \<open>str.strip()\<close> and \<open>str.split()\<close> (both without argument) treat as whitespace:
  TAB, LF, VT, FF, CR, the separators FS, GS, RS, US, the space, NEL and the
  no-break space.
\<close>

definition newline :: char where
  "newline = CHR 0x0A"

definition isspace :: "char \<Rightarrow> bool" where
  "isspace c = (of_char c \<in> {9, 10, 11, 12, 13, 28, 29, 30, 31, 32, 133, 160 :: nat})"

text \<open>\<open>s.strip()\<close>: whitespace removed at both ends.\<close>

definition strip :: "string \<Rightarrow> string" where
  "strip s = rev (dropWhile isspace (rev (dropWhile isspace s)))"

text \<open>
  \<open>s.split()\<close>: the maximal runs of non-whitespace characters, in order; no empty
  strings in the result.
\<close>

function split_ws :: "string \<Rightarrow> string list" where
  "split_ws s =
     (case dropWhile isspace s of
        [] \<Rightarrow> []
      | c # cs \<Rightarrow> takeWhile (\<lambda>x. \<not> isspace x) (c # cs)
                 # split_ws (dropWhile (\<lambda>x. \<not> isspace x) cs))"
  by pat_completeness auto
termination
proof (relation "measure length")
  show "wf (measure length)" by simp
next
  fix s :: string and c cs
  assume "dropWhile isspace s = c # cs"
  then have "length (c # cs) \<le> length s"
    by (metis length_dropWhile_le)
  moreover have "length (dropWhile (\<lambda>x. \<not> isspace x) cs) \<le> length cs"
    by (rule length_dropWhile_le)
  ultimately show "(dropWhile (\<lambda>x. \<not> isspace x) cs, s) \<in> measure length"
    by simp
qed

declare split_ws.simps [simp del]

text \<open>
  \<open>s.replace(old, new)\<close>: the leftmost non-overlapping occurrences of \<open>old\<close> are
  replaced, scanning from the left. With an empty \<open>old\<close> Python puts \<open>new\<close> before
  every character and at the end.
\<close>

function replace_ne :: "string \<Rightarrow> string \<Rightarrow> string \<Rightarrow> string" where
  "replace_ne old new [] = []"
| "replace_ne old new (c # cs) =
     (if old \<noteq> [] \<and> take (length old) (c # cs) = old
      then new @ replace_ne old new (drop (length old) (c # cs))
      else c # replace_ne old new cs)"
  by pat_completeness auto
termination
  by (relation "measure (\<lambda>(old, new, s). length s)") auto

definition replace :: "string \<Rightarrow> string \<Rightarrow> string \<Rightarrow> string" where
  "replace old new s =
     (if old = [] then new @ concat (map (\<lambda>c. c # new) s) else replace_ne old new s)"

text \<open>
  \<open>s.split(sep)\<close> for a non-empty separator: the pieces between the leftmost
  non-overlapping occurrences of \<open>sep\<close>; always at least one piece. \<open>acc\<close> holds the
  current piece, reversed. Every call in the notebook passes a non-empty literal
  (Python raises \<open>ValueError\<close> on an empty separator; no call site can reach that).
\<close>

function split_acc :: "string \<Rightarrow> string \<Rightarrow> string \<Rightarrow> string list" where
  "split_acc sep acc [] = [rev acc]"
| "split_acc sep acc (c # cs) =
     (if sep \<noteq> [] \<and> take (length sep) (c # cs) = sep
      then rev acc # split_acc sep [] (drop (length sep) (c # cs))
      else split_acc sep (c # acc) cs)"
  by pat_completeness auto
termination
  by (relation "measure (\<lambda>(sep, acc, s). length s)") auto

definition split :: "string \<Rightarrow> string \<Rightarrow> string list" where
  "split sep s = split_acc sep [] s"

text \<open>\<open>s.endswith(suffix)\<close>.\<close>

definition endswith :: "string \<Rightarrow> string \<Rightarrow> bool" where
  "endswith s suffix =
     (length suffix \<le> length s \<and> drop (length s - length suffix) s = suffix)"

section \<open>The token counter\<close>

text \<open>
  The notebook defines \<open>num_tokens_from_string\<close> twice. The first cell uses tiktoken's
  \<open>cl100k_base\<close> encoding; the later cell rebinds the name:
  \<^verbatim>\<open>
  def num_tokens_from_string(content):
      return len(content.split())  # Example: Counting words as tokens
  \<close>
  Cells run top to bottom, so the chunking loop, which comes after both, calls the
  second definition. That one is modelled.
\<close>

definition num_tokens_from_string :: "string \<Rightarrow> int" where
  "num_tokens_from_string content = int (length (split_ws content))"

section \<open>The normalizer\<close>

text \<open>
  \<^verbatim>\<open>
  def clean_markdown_content(content):
      link_pattern = r'\[([^\[]+)\]\(([^\)]+)\)'
      content = re.sub(link_pattern, r'\1', content)
      image_pattern = r'\!\[([^\[]*)\]\(([^\)]+)\)'
      content = re.sub(image_pattern, '', content)
      content = content.replace('**', '')
      content = content.replace('\n', '')
      return content
  \<close>
  \<open>re.sub\<close> replaces the leftmost non-overlapping matches; at each start position the
  backtracking matcher takes the first match in priority order, and a greedy
  repetition tries its longest extent first.

  Both patterns end in \<open>\]\(([^\)]+)\)\<close>. \<open>pattern_tail u\<close> matches that at the head of
  \<open>u\<close> and returns what follows the match. Group 2 is a greedy run of characters other
  than \<open>)\<close> that must be followed by \<open>)\<close>: only the maximal run can be, since after a
  shorter one the next character still belongs to the run. Group 2 must be non-empty.
\<close>

definition pattern_tail :: "string \<Rightarrow> string option" where
  "pattern_tail u =
     (case u of
        c1 # c2 # v \<Rightarrow>
          if c1 = CHR '']'' \<and> c2 = CHR ''(''
          then (let g2 = takeWhile (\<lambda>c. c \<noteq> CHR '')'') v;
                    w = dropWhile (\<lambda>c. c \<noteq> CHR '')'') v
                in if g2 \<noteq> [] \<and> w \<noteq> [] then Some (tl w) else None)
          else None
      | _ \<Rightarrow> None)"

text \<open>
  Group 1 of the link pattern is \<open>[^\[]+\<close>, greedy: with \<open>t\<close> the text after the opening
  bracket, the matcher tries the first \<open>n\<close> characters of \<open>t\<close> as group 1 for \<open>n\<close> from the
  length of the maximal run without \<open>[\<close> down to 1, and takes the first \<open>n\<close> after which
  the tail matches. \<open>link_group n t\<close> is that search from \<open>n\<close> downwards; it returns
  group 1 and the text after the match.
\<close>

fun link_group :: "nat \<Rightarrow> string \<Rightarrow> (string \<times> string) option" where
  "link_group 0 t = None"
| "link_group (Suc n) t =
     (case pattern_tail (drop (Suc n) t) of
        Some rest \<Rightarrow> Some (take (Suc n) t, rest)
      | None \<Rightarrow> link_group n t)"

definition match_link :: "string \<Rightarrow> (string \<times> string) option" where
  "match_link s =
     (case s of
        [] \<Rightarrow> None
      | c # t \<Rightarrow>
          if c = CHR ''[''
          then link_group (length (takeWhile (\<lambda>x. x \<noteq> CHR ''['') t)) t
          else None)"

text \<open>
  Group 1 of the image pattern is \<open>[^\[]*\<close>: the same search, down to the empty group.
  Only the text after the match is needed, the replacement being empty.
\<close>

fun image_group :: "nat \<Rightarrow> string \<Rightarrow> string option" where
  "image_group 0 t = pattern_tail t"
| "image_group (Suc n) t =
     (case pattern_tail (drop (Suc n) t) of
        Some rest \<Rightarrow> Some rest
      | None \<Rightarrow> image_group n t)"

definition match_image :: "string \<Rightarrow> string option" where
  "match_image s =
     (case s of
        c1 # c2 # t \<Rightarrow>
          if c1 = CHR ''!'' \<and> c2 = CHR ''[''
          then image_group (length (takeWhile (\<lambda>x. x \<noteq> CHR ''['') t)) t
          else None
      | _ \<Rightarrow> None)"

lemma pattern_tail_shorter: "pattern_tail u = Some rest \<Longrightarrow> length rest < length u"
proof -
  assume a: "pattern_tail u = Some rest"
  then obtain v where u: "u = CHR '']'' # CHR ''('' # v"
    and r: "rest = tl (dropWhile (\<lambda>c. c \<noteq> CHR '')'') v)"
    by (auto simp: pattern_tail_def Let_def split: list.splits if_splits)
  have "length (dropWhile (\<lambda>c. c \<noteq> CHR '')'') v) \<le> length v"
    by (rule length_dropWhile_le)
  then show ?thesis using u r by simp
qed

lemma link_group_shorter: "link_group n t = Some (g, rest) \<Longrightarrow> length rest < length t"
proof (induction n)
  case 0
  then show ?case by simp
next
  case (Suc n)
  show ?case
  proof (cases "pattern_tail (drop (Suc n) t)")
    case None
    with Suc show ?thesis by simp
  next
    case (Some r)
    with Suc.prems have "rest = r" by simp
    moreover from Some have "length r < length (drop (Suc n) t)"
      by (rule pattern_tail_shorter)
    ultimately show ?thesis by simp
  qed
qed

lemma match_link_shorter: "match_link s = Some (g, rest) \<Longrightarrow> length rest < length s"
  by (auto simp: match_link_def split: list.splits if_splits dest!: link_group_shorter)

lemma image_group_shorter: "image_group n t = Some rest \<Longrightarrow> length rest < length t"
proof (induction n)
  case 0
  then show ?case by (simp add: pattern_tail_shorter)
next
  case (Suc n)
  show ?case
  proof (cases "pattern_tail (drop (Suc n) t)")
    case None
    with Suc show ?thesis by simp
  next
    case (Some r)
    with Suc.prems have "rest = r" by simp
    moreover from Some have "length r < length (drop (Suc n) t)"
      by (rule pattern_tail_shorter)
    ultimately show ?thesis by simp
  qed
qed

lemma match_image_shorter: "match_image s = Some rest \<Longrightarrow> length rest < length s"
  by (auto simp: match_image_def split: list.splits if_splits dest!: image_group_shorter)

text \<open>
  \<open>re.sub(link_pattern, r'\1', content)\<close>: scan from the left; where the pattern
  matches, emit group 1 and go on after the match; elsewhere keep the character.
\<close>

function sub_link :: "string \<Rightarrow> string" where
  "sub_link [] = []"
| "sub_link (c # cs) =
     (case match_link (c # cs) of
        Some (g1, rest) \<Rightarrow> g1 @ sub_link rest
      | None \<Rightarrow> c # sub_link cs)"
  by pat_completeness auto
termination
  by (relation "measure length") (auto dest: match_link_shorter)

text \<open>\<open>re.sub(image_pattern, '', content)\<close>.\<close>

function sub_image :: "string \<Rightarrow> string" where
  "sub_image [] = []"
| "sub_image (c # cs) =
     (case match_image (c # cs) of
        Some rest \<Rightarrow> sub_image rest
      | None \<Rightarrow> c # sub_image cs)"
  by pat_completeness auto
termination
  by (relation "measure length") (auto dest: match_image_shorter)

definition clean_markdown_content :: "string \<Rightarrow> string" where
  "clean_markdown_content content =
     replace [newline] [] (replace ''**'' [] (sub_image (sub_link content)))"

section \<open>Text extraction\<close>

text \<open>
  The exceptions that can leave the notebook's code. \<open>FileNotFoundError\<close> and
  \<open>ValueError\<close> are raised by \<open>extract_text_from_file\<close> and carry the path;
  \<open>TypeError\<close> is what \<open>for chunk in None\<close> raises; \<open>ParserError\<close> stands for any
  exception of a format library (PyPDF2, python-docx, csv, pandas) or of \<open>open\<close>;
  \<open>ServiceFailure\<close> for any exception of the embedding call; \<open>OSError\<close> for any
  exception of \<open>open(..., 'w')\<close> or \<open>json.dump\<close> when a chunk file is written.
\<close>

datatype error =
    FileNotFoundError string
  | ValueError string
  | TypeError
  | ParserError
  | ServiceFailure
  | OSError

text \<open>
  Everything outside the notebook that the ingestion cells consult: the file system
  (\<open>os.path.exists\<close>), what each format library yields for a path (\<open>None\<close> when it
  raises), the embedding service (\<open>None\<close> when the call raises), the identifiers
  that \<open>uuid.uuid4()\<close> returns, by the number of identifiers drawn before, and
  whether a chunk file can be written at a path (\<open>False\<close> when \<open>open(path, 'w')\<close> or
  \<open>json.dump\<close> raises, as for a name longer than the file system allows). The
  embedding vector is opaque: its type is the parameter \<open>'v\<close>.
\<close>

record 'v env =
  path_exists :: "string \<Rightarrow> bool"
  pdf_pages :: "string \<Rightarrow> string list option"
  docx_paragraphs :: "string \<Rightarrow> string list option"
  csv_rows :: "string \<Rightarrow> string list list option"
  xlsx_sheets :: "string \<Rightarrow> string list option"
  get_embeddings_vector :: "string \<Rightarrow> 'v option"
  uuid4 :: "nat \<Rightarrow> string"
  writable :: "string \<Rightarrow> bool"

text \<open>\<open>sep.join(xs)\<close>.\<close>

fun join :: "string \<Rightarrow> string list \<Rightarrow> string" where
  "join sep [] = []"
| "join sep [x] = x"
| "join sep (x # y # ys) = x @ sep @ join sep (y # ys)"

text \<open>
  The \<open>if\<close>/\<open>elif\<close> chain of \<open>extract_text_from_file\<close> that accumulates \<open>content\<close>:
  the pages of a PDF, the paragraphs of a DOCX and the space-joined rows of a CSV are
  concatenated with nothing between them; each sheet of an XLSX, rendered by
  \<open>df.to_string(index=False)\<close>, is followed by two newlines. Any other suffix raises
  \<open>ValueError\<close>.
\<close>

definition read_content :: "'v env \<Rightarrow> string \<Rightarrow> error + string" where
  "read_content env file_path =
     (if endswith file_path ''.pdf'' then
        (case pdf_pages env file_path of
           None \<Rightarrow> Inl ParserError
         | Some pages \<Rightarrow> Inr (concat pages))
      else if endswith file_path ''.docx'' then
        (case docx_paragraphs env file_path of
           None \<Rightarrow> Inl ParserError
         | Some paragraphs \<Rightarrow> Inr (concat paragraphs))
      else if endswith file_path ''.csv'' then
        (case csv_rows env file_path of
           None \<Rightarrow> Inl ParserError
         | Some rows \<Rightarrow> Inr (concat (map (join '' '') rows)))
      else if endswith file_path ''.xlsx'' then
        (case xlsx_sheets env file_path of
           None \<Rightarrow> Inl ParserError
         | Some sheets \<Rightarrow> Inr (concat (map (\<lambda>d. d @ [newline, newline]) sheets)))
      else Inl (ValueError file_path))"

text \<open>
  \<^verbatim>\<open>
  if not os.path.exists(file_path):
      raise FileNotFoundError(...)
  ...
  return content.split('\n\n') if content else None
  \<close>
  The result is \<open>None\<close> when the extracted text is empty.
\<close>

definition extract_text_from_file :: "'v env \<Rightarrow> string \<Rightarrow> error + string list option" where
  "extract_text_from_file env file_path =
     (if \<not> path_exists env file_path then Inl (FileNotFoundError file_path)
      else (case read_content env file_path of
              Inl e \<Rightarrow> Inl e
            | Inr content \<Rightarrow>
                Inr (if content \<noteq> [] then Some (split [newline, newline] content) else None)))"

section \<open>The chunking loop\<close>

definition input_directory :: string where
  "input_directory = ''./data/myDocuments/''"

definition output_directory :: string where
  "output_directory = ''./data/chunks/''"

definition suported_file_types :: "string list" where
  "suported_file_types = [''.pdf'', ''.docx'', ''.csv'', ''.xlsx'']"

text \<open>\<open>str(filename).endswith(suported_file_types)\<close>, with a tuple of suffixes.\<close>

definition endswith_any :: "string \<Rightarrow> string list \<Rightarrow> bool" where
  "endswith_any s suffixes = list_ex (endswith s) suffixes"

text \<open>
  \<open>os.path.splitext(p)[0]\<close> (posixpath): the extension starts at the last dot of the
  last path component, unless only dots precede that dot in the component; then
  there is no extension. \<open>rfind\<close> is \<open>str.rfind\<close> for one character, \<open>-1\<close> when absent.
\<close>

definition rfind :: "char \<Rightarrow> string \<Rightarrow> int" where
  "rfind c s =
     (if c \<in> set s
      then int (length s) - 1 - int (length (takeWhile (\<lambda>x. x \<noteq> c) (rev s)))
      else - 1)"

definition splitext_root :: "string \<Rightarrow> string" where
  "splitext_root p =
     (let sepIndex = rfind CHR ''/'' p;
          dotIndex = rfind CHR ''.'' p
      in if dotIndex > sepIndex \<and>
            list_ex (\<lambda>c. c \<noteq> CHR ''.'')
              (take (nat (dotIndex - (sepIndex + 1))) (drop (nat (sepIndex + 1)) p))
         then take (nat dotIndex) p
         else p)"

text \<open>\<open>str(n)\<close> for a non-negative integer, as the f-string formats \<open>chunk_index\<close>.\<close>

function str_nat :: "nat \<Rightarrow> string" where
  "str_nat n =
     (if n < 10 then [char_of (48 + n)]
      else str_nat (n div 10) @ [char_of (48 + n mod 10)])"
  by pat_completeness auto
termination
  by (relation "measure id") auto

declare str_nat.simps [simp del]

text \<open>
  \<^verbatim>\<open>
  chunk_file_name = f'chunk_{chunk_index}_{page_title}.json'.replace('?', '')
      .replace(':', '').replace("'", '').replace('|', '').replace('/', '').replace('\\', '')
  \<close>
  The apostrophe is \<open>CHR 0x27\<close>, the backslash \<open>CHR 0x5C\<close>.
\<close>

definition chunk_file_name :: "nat \<Rightarrow> string \<Rightarrow> string" where
  "chunk_file_name chunk_index page_title =
     replace [CHR 0x5C] [] (replace ''/'' [] (replace ''|'' [] (replace [CHR 0x27] []
       (replace '':'' [] (replace ''?'' []
         (''chunk_'' @ str_nat chunk_index @ ''_'' @ page_title @ ''.json''))))))"

text \<open>The path \<open>f'{output_directory}/{chunk_file_name}'\<close> that the chunk file is opened at.\<close>

definition staging_path :: "nat \<Rightarrow> string \<Rightarrow> string" where
  "staging_path chunk_index page_title =
     output_directory @ ''/'' @ chunk_file_name chunk_index page_title"

text \<open>
  \<^verbatim>\<open>
  chunk_title = chunk_content.split('.\n')[0].strip()
  if len(chunk_title) > 200:
      chunk_title = chunk_title[:200] + '...'
  \<close>
  \<open>split\<close> returns at least one piece, so \<open>[0]\<close> never fails; the model's \<open>hd\<close> is
  applied to a non-empty list (lemma \<open>split_acc_nonempty\<close> below).
\<close>

definition first_sentence :: "string \<Rightarrow> string" where
  "first_sentence chunk_content = strip (hd (split (''.'' @ [newline]) chunk_content))"

definition limit_title :: "string \<Rightarrow> string" where
  "limit_title chunk_title =
     (if length chunk_title > 200 then take 200 chunk_title @ ''...'' else chunk_title)"

definition derive_chunk_title :: "string \<Rightarrow> string" where
  "derive_chunk_title chunk_content = limit_title (first_sentence chunk_content)"

text \<open>The dictionary \<open>chunk_data\<close> that \<open>json.dump\<close> writes.\<close>

record 'v chunk_data =
  chunk_id :: string
  page_title :: string
  chunk_title :: string
  chunk_content :: string
  vector :: 'v

text \<open>
  The state the loop changes: the counter \<open>chunk_index\<close>, the number of identifiers
  drawn from \<open>uuid4\<close>, the texts sent to the embedding service in order, and the files
  written under the output directory in order (path and content). A file is in the
  list when \<open>open\<close> and \<open>json.dump\<close> have both succeeded. Output of \<open>print\<close> is not
  modelled.
\<close>

record 'v state =
  chunk_index :: nat
  uuids_drawn :: nat
  embed_requests :: "string list"
  staged :: "(string \<times> 'v chunk_data) list"

definition initial_state :: "'v state" where
  "initial_state = \<lparr>chunk_index = 0, uuids_drawn = 0, embed_requests = [], staged = []\<rparr>"

text \<open>
  How the loop over one document's chunks ends: the list is exhausted, the \<open>break\<close>
  of the overflow branch is taken, or an exception leaves the loop. Each carries the
  state reached: what was written stays on disk.
\<close>

datatype 'v loop_exit =
    Exhausted "'v state"
  | Break "'v state"
  | Raised_in_loop error "'v state"

text \<open>The 8191 check of the loop, on the chunk as extracted.\<close>

definition MAX_INPUT_TOKENS :: int where
  "MAX_INPUT_TOKENS = 8191"

definition chunk_overflows :: "string \<Rightarrow> bool" where
  "chunk_overflows chunk =
     (num_tokens_from_string (clean_markdown_content (strip chunk)) > MAX_INPUT_TOKENS)"

text \<open>
  The body of \<open>for chunk in extracted_paragraphs\<close>, for the chunks still to come:
  \<^verbatim>\<open>
  chunk_index += 1
  chunk_content = clean_markdown_content(chunk.strip())
  if (num_tokens_from_string(chunk_content) > 8191):
      break
  vector = get_embeddings_vector(chunk_content)
  chunk_title = ...
  chunk_data = {"id": str(uuid.uuid4()), 'page_title': page_title,
                'chunk_title': chunk_title, 'chunk_content': chunk_content,
                'vector': vector}
  chunk_file_name = ...
  with open(f'{output_directory}/{chunk_file_name}', 'w') as f:
      json.dump(chunk_data, f)
  \<close>
\<close>

fun process_chunks :: "'v env \<Rightarrow> string \<Rightarrow> string list \<Rightarrow> 'v state \<Rightarrow> 'v loop_exit" where
  "process_chunks env title [] st = Exhausted st"
| "process_chunks env title (chunk # rest) st =
     (let st1 = st\<lparr>chunk_index := chunk_index st + 1\<rparr>;
          content = clean_markdown_content (strip chunk)
      in if num_tokens_from_string content > MAX_INPUT_TOKENS then Break st1
         else
           (let st2 = st1\<lparr>embed_requests := embed_requests st1 @ [content]\<rparr>
            in case get_embeddings_vector env content of
                 None \<Rightarrow> Raised_in_loop ServiceFailure st2
               | Some v \<Rightarrow>
                   (let chunk_data =
                          \<lparr>chunk_id = uuid4 env (uuids_drawn st2),
                           page_title = title,
                           chunk_title = derive_chunk_title content,
                           chunk_content = content,
                           vector = v\<rparr>;
                        st3 = st2\<lparr>uuids_drawn := uuids_drawn st2 + 1\<rparr>;
                        path = staging_path (chunk_index st3) title
                    in if writable env path
                       then process_chunks env title rest
                              (st3\<lparr>staged := staged st3 @ [(path, chunk_data)]\<rparr>)
                       else Raised_in_loop OSError st3)))"

text \<open>How the run over the directory ends.\<close>

datatype 'v outcome =
    Finished "'v state"
  | Raised error "'v state"

fun final_state :: "'v outcome \<Rightarrow> 'v state" where
  "final_state (Finished st) = st"
| "final_state (Raised e st) = st"

text \<open>
  One iteration of \<open>for filename in os.listdir(input_directory)\<close>. A name without a
  supported suffix is passed over. No exception is caught anywhere in the cell:
  one raised by \<open>extract_text_from_file\<close>, by iterating over its \<open>None\<close>, by the
  embedding call or by writing the chunk file ends the cell.
\<close>

definition process_document :: "'v env \<Rightarrow> string \<Rightarrow> 'v state \<Rightarrow> 'v outcome" where
  "process_document env filename st =
     (if endswith_any filename suported_file_types then
        (case extract_text_from_file env (input_directory @ filename) of
           Inl e \<Rightarrow> Raised e st
         | Inr None \<Rightarrow> Raised TypeError st
         | Inr (Some extracted_paragraphs) \<Rightarrow>
             (case process_chunks env (splitext_root filename) extracted_paragraphs st of
                Exhausted st' \<Rightarrow> Finished st'
              | Break st' \<Rightarrow> Finished st'
              | Raised_in_loop e st' \<Rightarrow> Raised e st'))
      else Finished st)"

text \<open>The loop over the directory listing, from \<open>chunk_index = 0\<close>.\<close>

fun ingest :: "'v env \<Rightarrow> string list \<Rightarrow> 'v state \<Rightarrow> 'v outcome" where
  "ingest env [] st = Finished st"
| "ingest env (filename # rest) st =
     (case process_document env filename st of
        Raised e st' \<Rightarrow> Raised e st'
      | Finished st' \<Rightarrow> ingest env rest st')"

definition run_ingestion :: "'v env \<Rightarrow> string list \<Rightarrow> 'v outcome" where
  "run_ingestion env listing = ingest env listing initial_state"

fun exit_state :: "'v loop_exit \<Rightarrow> 'v state" where
  "exit_state (Exhausted st) = st"
| "exit_state (Break st) = st"
| "exit_state (Raised_in_loop e st) = st"

section \<open>Notions used to state the properties\<close>

text \<open>
  The chunk candidates of a run, normalized as the loop normalizes them: for each
  listed file whose extraction yields paragraphs, each paragraph stripped and cleaned.
  Nothing is cut from them.
\<close>

definition normalized_candidates :: "'v env \<Rightarrow> string list \<Rightarrow> string list" where
  "normalized_candidates env listing =
     concat (map (\<lambda>filename.
        case extract_text_from_file env (input_directory @ filename) of
          Inr (Some paragraphs) \<Rightarrow> map (\<lambda>chunk. clean_markdown_content (strip chunk)) paragraphs
        | _ \<Rightarrow> []) listing)"

text \<open>A state in which every file written satisfies \<open>Q\<close> and every text sent to the
  embedding service satisfies \<open>R\<close>.\<close>

definition state_inv ::
  "(string \<times> 'v chunk_data \<Rightarrow> bool) \<Rightarrow> (string \<Rightarrow> bool) \<Rightarrow> 'v state \<Rightarrow> bool" where
  "state_inv Q R st = (list_all Q (staged st) \<and> list_all R (embed_requests st))"

text \<open>The embedding call succeeds on a chunk, once the loop has normalized it.\<close>

definition embeds :: "'v env \<Rightarrow> string \<Rightarrow> bool" where
  "embeds env chunk =
     (get_embeddings_vector env (clean_markdown_content (strip chunk)) \<noteq> None)"

text \<open>
  A chunk is accepted at a counter value: it is within the limit, the embedding call
  succeeds on it and its chunk file, named from that counter value, can be written.
\<close>

definition accepted :: "'v env \<Rightarrow> nat \<Rightarrow> string \<Rightarrow> string \<Rightarrow> bool" where
  "accepted env k title chunk =
     (\<not> chunk_overflows chunk \<and> embeds env chunk \<and> writable env (staging_path k title))"

text \<open>
  The state after the iteration that accepts a chunk, from the state \<open>st\<close> before it:
  the counter incremented, the normalized chunk sent to the embedding service, one
  identifier drawn, and the chunk file written under the incremented counter.
\<close>

definition after_accept :: "'v env \<Rightarrow> string \<Rightarrow> string \<Rightarrow> 'v \<Rightarrow> 'v state \<Rightarrow> 'v state" where
  "after_accept env title chunk v st =
     st\<lparr>chunk_index := chunk_index st + 1,
        embed_requests := embed_requests st @ [clean_markdown_content (strip chunk)],
        uuids_drawn := uuids_drawn st + 1,
        staged := staged st @
          [(staging_path (chunk_index st + 1) title,
            \<lparr>chunk_id = uuid4 env (uuids_drawn st),
             page_title = title,
             chunk_title = derive_chunk_title (clean_markdown_content (strip chunk)),
             chunk_content = clean_markdown_content (strip chunk),
             vector = v\<rparr>)]\<rparr>"

text \<open>\<open>sub in s\<close>: the string \<open>sub\<close> occurs in \<open>s\<close>.\<close>

fun contains :: "string \<Rightarrow> string \<Rightarrow> bool" where
  "contains sub [] = (sub = [])"
| "contains sub (c # cs) = (take (length sub) (c # cs) = sub \<or> contains sub cs)"

text \<open>
  Whitespace-separated words, counted without splitting: a word starts at every
  character that is not whitespace and is the first of the string or follows a
  whitespace character. \<open>after_space\<close> tells whether the position before is the start
  of the string or a whitespace character.
\<close>

fun word_starts :: "bool \<Rightarrow> string \<Rightarrow> nat" where
  "word_starts after_space [] = 0"
| "word_starts after_space (c # cs) =
     (if \<not> isspace c \<and> after_space then 1 else 0) + word_starts (isspace c) cs"

section \<open>A sample directory\<close>

text \<open>
  A chunk of 8192 one-letter words, one more than the limit, and a directory to run
  the loop on: \<open>a.csv\<close> holds three paragraphs, the second one the long chunk;
  \<open>b.csv\<close> holds one row of two cells; \<open>c.csv\<close> holds a text the embedding service
  fails on; \<open>d.csv\<close> holds that text and then the long chunk; \<open>t.csv\<close> holds one
  word of 201 letters; \<open>w.csv\<close> holds one word, and the chunk file it would get as
  the first document of a run cannot be written; \<open>empty.csv\<close> has no rows;
  \<open>notes.txt\<close> has no supported suffix. The embedding of a text is, for the sake of
  the example, the list of its length.
\<close>

definition long_chunk :: string where
  "long_chunk = concat (replicate 8191 ''a '') @ ''a''"

definition sample_env :: "nat list env" where
  "sample_env =
     \<lparr>path_exists = (\<lambda>p. p \<in> {''./data/myDocuments/a.csv'', ''./data/myDocuments/b.csv'',
                               ''./data/myDocuments/c.csv'', ''./data/myDocuments/d.csv'',
                               ''./data/myDocuments/t.csv'', ''./data/myDocuments/w.csv'',
                               ''./data/myDocuments/empty.csv'',
                               ''./data/myDocuments/notes.txt''}),
      pdf_pages = (\<lambda>p. None),
      docx_paragraphs = (\<lambda>p. None),
      csv_rows = (\<lambda>p.
        if p = ''./data/myDocuments/a.csv''
        then Some [[''Intro.'' @ [newline, newline] @ long_chunk @ [newline, newline] @ ''Tail'']]
        else if p = ''./data/myDocuments/b.csv'' then Some [[''Second'', ''doc'']]
        else if p = ''./data/myDocuments/c.csv'' then Some [[''unavailable'']]
        else if p = ''./data/myDocuments/d.csv''
        then Some [[''unavailable'' @ [newline, newline] @ long_chunk]]
        else if p = ''./data/myDocuments/t.csv'' then Some [[replicate 201 CHR ''x'']]
        else if p = ''./data/myDocuments/w.csv'' then Some [[''Locked'']]
        else if p = ''./data/myDocuments/empty.csv'' then Some []
        else None),
      xlsx_sheets = (\<lambda>p. None),
      get_embeddings_vector = (\<lambda>t. if t = ''unavailable'' then None else Some [length t]),
      uuid4 = (\<lambda>n. ''uuid-'' @ str_nat n),
      writable = (\<lambda>p. p \<noteq> ''./data/chunks//chunk_1_w.json'')\<rparr>"

section \<open>Facts about the string primitives\<close>

lemma replace_single: "replace [c] [] s = filter (\<lambda>x. x \<noteq> c) s"
  by (induction s) (auto simp: replace_def)

lemma split_ws_Nil_iff: "split_ws s = [] \<longleftrightarrow> list_all isspace s"
proof (cases "dropWhile isspace s")
  case Nil
  then have "list_all isspace s"
    by (simp add: list_all_iff dropWhile_eq_Nil_conv)
  then show ?thesis
    by (subst split_ws.simps) (simp add: Nil)
next
  case (Cons c cs)
  then have "\<not> list_all isspace s"
    unfolding list_all_iff by (metis dropWhile_eq_Nil_conv list.distinct(1))
  then show ?thesis
    by (subst split_ws.simps) (simp add: Cons)
qed

lemma split_ws_words:
  "list_all (\<lambda>w. w \<noteq> [] \<and> list_all (\<lambda>c. \<not> isspace c) w) (split_ws s)"
proof (induction s rule: split_ws.induct)
  case (1 s)
  show ?case
  proof (cases "dropWhile isspace s")
    case Nil
    then show ?thesis by (subst split_ws.simps) (simp add: Nil)
  next
    case (Cons c cs)
    then have "\<not> isspace c"
      by (metis hd_dropWhile list.distinct(1) list.sel(1))
    moreover have "list_all (\<lambda>c. \<not> isspace c) (takeWhile (\<lambda>x. \<not> isspace x) cs)"
      by (auto simp: list_all_iff dest: set_takeWhileD)
    ultimately show ?thesis
      using 1 [OF Cons] by (subst split_ws.simps) (simp add: Cons)
  qed
qed

lemma concat_split_ws: "concat (split_ws s) = filter (\<lambda>c. \<not> isspace c) s"
proof (induction s rule: split_ws.induct)
  case (1 s)
  have f: "filter (\<lambda>c. \<not> isspace c) s = filter (\<lambda>c. \<not> isspace c) (dropWhile isspace s)"
    by (induction s) auto
  show ?case
  proof (cases "dropWhile isspace s")
    case Nil
    then show ?thesis by (subst split_ws.simps) (simp add: f Nil)
  next
    case (Cons c cs)
    then have c: "\<not> isspace c"
      by (metis hd_dropWhile list.distinct(1) list.sel(1))
    have g: "filter (\<lambda>c. \<not> isspace c) cs =
          takeWhile (\<lambda>x. \<not> isspace x) cs
            @ filter (\<lambda>c. \<not> isspace c) (dropWhile (\<lambda>x. \<not> isspace x) cs)"
      by (induction cs) auto
    show ?thesis
      using 1 [OF Cons] c by (subst split_ws.simps) (simp add: Cons f g)
  qed
qed

section \<open>The normalizer on the specification's examples\<close>

text \<open>
  Claim C3. The specification gives three equations for the normalizer. On the code
  the first and the third hold. The second does not: the link substitution runs
  first and its pattern matches the \<open>[alt](http://x)\<close> inside the image syntax, so
  \<open>![alt](http://x)\<close> becomes \<open>!alt\<close>; the image pattern, applied afterwards, finds
  nothing left to remove. The code's own comment on that step is "Remove images".
\<close>

theorem clean_markdown_content_examples:
  "clean_markdown_content ''[label](http://x)'' = ''label'' \<and>
   clean_markdown_content ''![alt](http://x)'' = ''!alt'' \<and>
   clean_markdown_content ''a**b**c'' = ''abc''"
  by (simp add: clean_markdown_content_def match_link_def match_image_def pattern_tail_def
      replace_def newline_def)

section \<open>One iteration of the loop\<close>

lemma process_chunks_overflow:
  "chunk_overflows chunk \<Longrightarrow>
   process_chunks env title (chunk # rest) st = Break (st\<lparr>chunk_index := chunk_index st + 1\<rparr>)"
  by (simp add: chunk_overflows_def Let_def)

lemma process_chunks_embed_fails:
  "\<not> chunk_overflows chunk \<Longrightarrow> \<not> embeds env chunk \<Longrightarrow>
   process_chunks env title (chunk # rest) st =
     Raised_in_loop ServiceFailure
       (st\<lparr>chunk_index := chunk_index st + 1,
           embed_requests := embed_requests st @ [clean_markdown_content (strip chunk)]\<rparr>)"
  by (simp add: chunk_overflows_def embeds_def Let_def)

lemma process_chunks_write_fails:
  "\<not> chunk_overflows chunk \<Longrightarrow> embeds env chunk \<Longrightarrow>
   \<not> writable env (staging_path (chunk_index st + 1) title) \<Longrightarrow>
   process_chunks env title (chunk # rest) st =
     Raised_in_loop OSError
       (st\<lparr>chunk_index := chunk_index st + 1,
           embed_requests := embed_requests st @ [clean_markdown_content (strip chunk)],
           uuids_drawn := uuids_drawn st + 1\<rparr>)"
  by (auto simp: chunk_overflows_def embeds_def Let_def)

lemma process_chunks_accept:
  "\<not> chunk_overflows chunk \<Longrightarrow>
   get_embeddings_vector env (clean_markdown_content (strip chunk)) = Some v \<Longrightarrow>
   writable env (staging_path (chunk_index st + 1) title) \<Longrightarrow>
   process_chunks env title (chunk # rest) st =
     process_chunks env title rest (after_accept env title chunk v st)"
  by (simp add: chunk_overflows_def Let_def after_accept_def)

text \<open>The four ways an iteration can go.\<close>

lemma process_chunks_cases:
  obtains
    (overflow) "chunk_overflows chunk"
      "process_chunks env title (chunk # rest) st = Break (st\<lparr>chunk_index := chunk_index st + 1\<rparr>)"
  | (embed_fails) "\<not> chunk_overflows chunk" "\<not> embeds env chunk"
      "process_chunks env title (chunk # rest) st =
         Raised_in_loop ServiceFailure
           (st\<lparr>chunk_index := chunk_index st + 1,
               embed_requests := embed_requests st @ [clean_markdown_content (strip chunk)]\<rparr>)"
  | (write_fails) "\<not> chunk_overflows chunk" "embeds env chunk"
      "\<not> writable env (staging_path (chunk_index st + 1) title)"
      "process_chunks env title (chunk # rest) st =
         Raised_in_loop OSError
           (st\<lparr>chunk_index := chunk_index st + 1,
               embed_requests := embed_requests st @ [clean_markdown_content (strip chunk)],
               uuids_drawn := uuids_drawn st + 1\<rparr>)"
  | (accept) v where "\<not> chunk_overflows chunk"
      "get_embeddings_vector env (clean_markdown_content (strip chunk)) = Some v"
      "writable env (staging_path (chunk_index st + 1) title)"
      "process_chunks env title (chunk # rest) st =
         process_chunks env title rest (after_accept env title chunk v st)"
proof (cases "chunk_overflows chunk")
  case True
  then show ?thesis
    using overflow [OF True process_chunks_overflow [OF True]] by blast
next
  case nov: False
  show ?thesis
  proof (cases "get_embeddings_vector env (clean_markdown_content (strip chunk))")
    case None
    then have "\<not> embeds env chunk" by (simp add: embeds_def)
    then show ?thesis
      using embed_fails [OF nov _ process_chunks_embed_fails [OF nov]] by blast
  next
    case (Some v)
    then have e: "embeds env chunk" by (simp add: embeds_def)
    show ?thesis
    proof (cases "writable env (staging_path (chunk_index st + 1) title)")
      case True
      then show ?thesis
        using accept [OF nov Some True process_chunks_accept [OF nov Some True]] by blast
    next
      case False
      then show ?thesis
        using write_fails [OF nov e False process_chunks_write_fails [OF nov e False]] by blast
    qed
  qed
qed

section \<open>What every step of the loop establishes holds of the whole run\<close>

lemma process_chunks_inv:
  assumes step: "\<And>chunk k u v. chunk \<in> set chunks \<Longrightarrow> \<not> chunk_overflows chunk \<Longrightarrow>
      R (clean_markdown_content (strip chunk)) \<and>
      Q (staging_path k title,
         \<lparr>chunk_id = u, page_title = title,
          chunk_title = derive_chunk_title (clean_markdown_content (strip chunk)),
          chunk_content = clean_markdown_content (strip chunk), vector = v\<rparr>)"
    and inv: "state_inv Q R st"
  shows "state_inv Q R (exit_state (process_chunks env title chunks st))"
  using step inv
proof (induction chunks arbitrary: st)
  case Nil
  then show ?case by simp
next
  case (Cons chunk rest)
  let ?content = "clean_markdown_content (strip chunk)"
  have here: "R ?content \<and>
      Q (staging_path k title,
         \<lparr>chunk_id = u, page_title = title,
          chunk_title = derive_chunk_title ?content,
          chunk_content = ?content, vector = v\<rparr>)" if "\<not> chunk_overflows chunk" for k u v
    using Cons.prems(1) [of chunk] that by simp
  show ?case
  proof (cases rule: process_chunks_cases [of chunk env title rest st])
    case overflow
    then show ?thesis using Cons.prems(2) by (simp add: state_inv_def)
  next
    case embed_fails
    then show ?thesis using here Cons.prems(2) by (simp add: state_inv_def)
  next
    case write_fails
    then show ?thesis using here Cons.prems(2) by (simp add: state_inv_def)
  next
    case (accept v)
    have inv3: "state_inv Q R (after_accept env title chunk v st)"
      using here [OF accept(1)] Cons.prems(2) by (simp add: state_inv_def after_accept_def)
    have "state_inv Q R (exit_state (process_chunks env title rest (after_accept env title chunk v st)))"
      by (rule Cons.IH [OF _ inv3]) (use Cons.prems(1) in auto)
    then show ?thesis using accept(4) by simp
  qed
qed

lemma process_document_inv:
  assumes step: "\<And>paragraphs chunk k u v.
      extract_text_from_file env (input_directory @ filename) = Inr (Some paragraphs) \<Longrightarrow>
      chunk \<in> set paragraphs \<Longrightarrow> \<not> chunk_overflows chunk \<Longrightarrow>
      R (clean_markdown_content (strip chunk)) \<and>
      Q (staging_path k (splitext_root filename),
         \<lparr>chunk_id = u, page_title = splitext_root filename,
          chunk_title = derive_chunk_title (clean_markdown_content (strip chunk)),
          chunk_content = clean_markdown_content (strip chunk), vector = v\<rparr>)"
    and inv: "state_inv Q R st"
  shows "state_inv Q R (final_state (process_document env filename st))"
proof (cases "extract_text_from_file env (input_directory @ filename)")
  case (Inl e)
  then show ?thesis using inv by (simp add: process_document_def)
next
  case (Inr r)
  show ?thesis
  proof (cases r)
    case None
    then show ?thesis using Inr inv by (simp add: process_document_def)
  next
    case (Some paragraphs)
    have "state_inv Q R
            (exit_state (process_chunks env (splitext_root filename) paragraphs st))"
      by (rule process_chunks_inv [OF _ inv]) (use step Inr Some in auto)
    then show ?thesis
      using Inr Some inv
      by (cases "process_chunks env (splitext_root filename) paragraphs st")
         (simp_all add: process_document_def)
  qed
qed

lemma ingest_inv:
  assumes step: "\<And>filename paragraphs chunk k u v. filename \<in> set listing \<Longrightarrow>
      extract_text_from_file env (input_directory @ filename) = Inr (Some paragraphs) \<Longrightarrow>
      chunk \<in> set paragraphs \<Longrightarrow> \<not> chunk_overflows chunk \<Longrightarrow>
      R (clean_markdown_content (strip chunk)) \<and>
      Q (staging_path k (splitext_root filename),
         \<lparr>chunk_id = u, page_title = splitext_root filename,
          chunk_title = derive_chunk_title (clean_markdown_content (strip chunk)),
          chunk_content = clean_markdown_content (strip chunk), vector = v\<rparr>)"
    and inv: "state_inv Q R st"
  shows "state_inv Q R (final_state (ingest env listing st))"
  using step inv
proof (induction listing arbitrary: st)
  case Nil
  then show ?case by simp
next
  case (Cons filename rest)
  have d: "state_inv Q R (final_state (process_document env filename st))"
    by (rule process_document_inv [OF _ Cons.prems(2)]) (rule Cons.prems(1), simp_all)
  show ?case
  proof (cases "process_document env filename st")
    case (Raised e st')
    then show ?thesis using d by simp
  next
    case (Finished st')
    then have "state_inv Q R st'" using d by simp
    then have "state_inv Q R (final_state (ingest env rest st'))"
      by (rule Cons.IH [rotated]) (rule Cons.prems(1), simp_all)
    then show ?thesis using Finished by simp
  qed
qed

section \<open>The normalizer is not idempotent\<close>

lemma match_link_no_bracket: "CHR ''['' \<notin> set s \<Longrightarrow> match_link s = None"
  by (cases s) (auto simp: match_link_def)

lemma match_image_no_bracket: "CHR ''['' \<notin> set s \<Longrightarrow> match_image s = None"
  by (auto simp: match_image_def split: list.splits)

lemma sub_link_no_bracket: "CHR ''['' \<notin> set s \<Longrightarrow> sub_link s = s"
proof (induction s)
  case Nil
  then show ?case by simp
next
  case (Cons c cs)
  then have "match_link (c # cs) = None"
    by (intro match_link_no_bracket) simp
  with Cons show ?case by simp
qed

lemma sub_image_no_bracket: "CHR ''['' \<notin> set s \<Longrightarrow> sub_image s = s"
proof (induction s)
  case Nil
  then show ?case by simp
next
  case (Cons c cs)
  then have "match_image (c # cs) = None"
    by (intro match_image_no_bracket) simp
  with Cons show ?case by simp
qed

lemma replace_absent: "c \<notin> set s \<Longrightarrow> replace (c # old) [] s = s"
proof (induction s)
  case Nil
  then show ?case by (simp add: replace_def)
next
  case (Cons x xs)
  then show ?case by (auto simp: replace_def)
qed

lemma set_replace_ne: "set (replace_ne old [] s) \<subseteq> set s"
proof (induction old "[]::string" s rule: replace_ne.induct)
  case (1 old)
  then show ?case by simp
next
  case (2 old c cs)
  show ?case
  proof (cases "old \<noteq> [] \<and> take (length old) (c # cs) = old")
    case True
    with 2 have "set (replace_ne old [] (drop (length old) (c # cs))) \<subseteq> set (drop (length old) (c # cs))"
      by blast
    also have "\<dots> \<subseteq> set (c # cs)" by (rule set_drop_subset)
    finally show ?thesis using True by simp
  next
    case False
    with 2 show ?thesis by auto
  qed
qed

lemma stars_hd: "(s = [] \<or> hd s \<noteq> CHR ''*'') \<Longrightarrow>
   (replace_ne ''**'' [] s = [] \<or> hd (replace_ne ''**'' [] s) \<noteq> CHR ''*'')"
  by (cases s) auto

lemma replace_ne_skip:
  "take (length old) (c # cs) \<noteq> old \<Longrightarrow> replace_ne old new (c # cs) = c # replace_ne old new cs"
  by simp

lemma replace_ne_hit:
  "old \<noteq> [] \<Longrightarrow> take (length old) (c # cs) = old \<Longrightarrow>
   replace_ne old new (c # cs) = new @ replace_ne old new (drop (length old) (c # cs))"
  by simp

lemma replace_stars_idem:
  "replace_ne ''**'' [] (replace_ne ''**'' [] s) = replace_ne ''**'' [] s"
proof (induction "''**''" "[]::string" s rule: replace_ne.induct)
  case 1
  then show ?case by simp
next
  case (2 c cs)
  show ?case
  proof (cases "take (length ''**'') (c # cs) = ''**''")
    case True
    then have "replace_ne ''**'' [] (c # cs) = replace_ne ''**'' [] (drop (length ''**'') (c # cs))"
      using replace_ne_hit [of "''**''" c cs "[]"] by simp
    moreover have "replace_ne ''**'' [] (replace_ne ''**'' [] (drop (length ''**'') (c # cs)))
        = replace_ne ''**'' [] (drop (length ''**'') (c # cs))"
      using 2(1) True by blast
    ultimately show ?thesis by simp
  next
    case False
    then have ih: "replace_ne ''**'' [] (replace_ne ''**'' [] cs) = replace_ne ''**'' [] cs"
      using 2(2) by blast
    have out: "replace_ne ''**'' [] (c # cs) = c # replace_ne ''**'' [] cs"
      using False by (rule replace_ne_skip)
    have "take (length ''**'') (c # replace_ne ''**'' [] cs) \<noteq> ''**''"
    proof (cases "c = CHR ''*''")
      case True
      with False have "cs = [] \<or> hd cs \<noteq> CHR ''*''"
        by (cases cs) auto
      then have "replace_ne ''**'' [] cs = [] \<or> hd (replace_ne ''**'' [] cs) \<noteq> CHR ''*''"
        by (rule stars_hd)
      then show ?thesis
        by (cases "replace_ne ''**'' [] cs") auto
    next
      case False
      then show ?thesis by simp
    qed
    then have "replace_ne ''**'' [] (c # replace_ne ''**'' [] cs)
        = c # replace_ne ''**'' [] (replace_ne ''**'' [] cs)"
      by (rule replace_ne_skip)
    then show ?thesis by (simp only: out ih)
  qed
qed

lemma newline_not_in_clean: "newline \<notin> set (clean_markdown_content x)"
  by (simp add: clean_markdown_content_def replace_single)

lemma clean_plain:
  "CHR ''['' \<notin> set s \<Longrightarrow> CHR ''*'' \<notin> set s \<Longrightarrow> newline \<notin> set s \<Longrightarrow>
   clean_markdown_content s = s"
  by (simp add: clean_markdown_content_def sub_link_no_bracket sub_image_no_bracket
      replace_absent)

text \<open>
  Claim C2 says that normalizing twice is normalizing once. Each of the four steps
  runs once, in a fixed order, and a later step can produce what an earlier one
  removes: deleting the newline between two asterisks leaves \<open>**\<close>, which the
  step before would have deleted; and a link whose label holds a link is unwrapped
  one level per call. So \<open>*\<newline>*\<close> normalizes to \<open>**\<close> and that to the empty
  string, and \<open>[[a](b)](c)\<close> normalizes to \<open>[a](b)\<close> and that to \<open>a\<close>.
\<close>

theorem clean_not_idempotent:
  "clean_markdown_content (clean_markdown_content (''*'' @ [newline] @ ''*''))
     \<noteq> clean_markdown_content (''*'' @ [newline] @ ''*'') \<and>
   clean_markdown_content (''*'' @ [newline] @ ''*'') = ''**'' \<and>
   clean_markdown_content ''**'' = [] \<and>
   clean_markdown_content ''[[a](b)](c)'' = ''[a](b)'' \<and>
   clean_markdown_content ''[a](b)'' = ''a''"
  by (simp add: clean_markdown_content_def match_link_def match_image_def pattern_tail_def
      replace_def newline_def)

lemma star_free_no_pair: "CHR ''*'' \<notin> set s \<Longrightarrow> \<not> contains ''**'' s"
  by (induction s) auto

lemma replace_without_pair: "\<not> contains ''**'' s \<Longrightarrow> replace_ne ''**'' [] s = s"
  by (induction s) auto

lemma length_replace_ne: "length (replace_ne old [] s) \<le> length s"
proof (induction old "[]::string" s rule: replace_ne.induct)
  case (1 old)
  then show ?case by simp
next
  case (2 old c cs)
  show ?case
  proof (cases "old \<noteq> [] \<and> take (length old) (c # cs) = old")
    case True
    with 2 have "length (replace_ne old [] (drop (length old) (c # cs)))
        \<le> length (drop (length old) (c # cs))"
      by blast
    then show ?thesis using True by simp
  next
    case False
    with 2 have "length (replace_ne old [] cs) \<le> length cs" by blast
    then show ?thesis using False by auto
  qed
qed

lemma replace_pair_shorter:
  "contains ''**'' s \<Longrightarrow> length (replace_ne ''**'' [] s) < length s"
proof (induction s rule: length_induct)
  case (1 s)
  show ?case
  proof (cases s)
    case Nil
    with 1 show ?thesis by simp
  next
    case (Cons c cs)
    show ?thesis
    proof (cases "take (length ''**'') (c # cs) = ''**''")
      case True
      then have "replace_ne ''**'' [] (c # cs) = replace_ne ''**'' [] (drop (length ''**'') (c # cs))"
        using replace_ne_hit [of "''**''" c cs "[]"] by simp
      moreover have "length (replace_ne ''**'' [] (drop (length ''**'') (c # cs)))
          \<le> length (drop (length ''**'') (c # cs))"
        by (rule length_replace_ne)
      ultimately show ?thesis using Cons by simp
    next
      case False
      then have out: "replace_ne ''**'' [] (c # cs) = c # replace_ne ''**'' [] cs"
        by (rule replace_ne_skip)
      from 1(2) Cons have "take (length ''**'') (c # cs) = ''**'' \<or> contains ''**'' cs"
        by (simp only: contains.simps)
      with False have "contains ''**'' cs" by blast
      with 1(1) Cons have "length (replace_ne ''**'' [] cs) < length cs" by simp
      then show ?thesis using Cons out by simp
    qed
  qed
qed

lemma replace_pair_def: "replace ''**'' [] s = replace_ne ''**'' [] s"
  by (simp add: replace_def)

lemma replace_fixed_iff: "replace_ne ''**'' [] s = s \<longleftrightarrow> \<not> contains ''**'' s"
  using replace_pair_shorter [of s] replace_without_pair [of s] by auto

lemma link_group_consumes:
  "link_group n t = Some (g, rest) \<Longrightarrow> length g + length rest < length t"
proof (induction n)
  case 0
  then show ?case by simp
next
  case (Suc n)
  show ?case
  proof (cases "pattern_tail (drop (Suc n) t)")
    case None
    with Suc show ?thesis by simp
  next
    case (Some r)
    with Suc.prems have g: "g = take (Suc n) t" "rest = r" by simp_all
    from Some have "length r < length (drop (Suc n) t)"
      by (rule pattern_tail_shorter)
    then show ?thesis using g by simp
  qed
qed

lemma match_link_consumes:
  "match_link s = Some (g, rest) \<Longrightarrow> length g + length rest < length s"
  by (auto simp: match_link_def split: list.splits if_splits dest!: link_group_consumes)

lemma length_sub_link: "length (sub_link s) \<le> length s"
proof (induction s rule: sub_link.induct)
  case 1
  then show ?case by simp
next
  case (2 c cs)
  show ?case
  proof (cases "match_link (c # cs)")
    case None
    with 2 show ?thesis by simp
  next
    case (Some m)
    obtain g rest where m: "m = (g, rest)" by (cases m)
    with 2 Some have "length (sub_link rest) \<le> length rest" by simp
    moreover have "length g + length rest < length (c # cs)"
      using Some m by (intro match_link_consumes) simp
    ultimately show ?thesis using Some m by simp
  qed
qed

lemma sub_link_fixed: "length (sub_link s) = length s \<Longrightarrow> sub_link s = s"
proof (induction s rule: sub_link.induct)
  case 1
  then show ?case by simp
next
  case (2 c cs)
  show ?case
  proof (cases "match_link (c # cs)")
    case None
    with 2 show ?thesis by simp
  next
    case (Some m)
    obtain g rest where m: "m = (g, rest)" by (cases m)
    have "length (sub_link rest) \<le> length rest" by (rule length_sub_link)
    moreover have "length g + length rest < length (c # cs)"
      using Some m by (intro match_link_consumes) simp
    ultimately have "length (sub_link (c # cs)) < length (c # cs)"
      using Some m by simp
    with 2(3) show ?thesis by simp
  qed
qed

lemma length_sub_image: "length (sub_image s) \<le> length s"
proof (induction s rule: sub_image.induct)
  case 1
  then show ?case by simp
next
  case (2 c cs)
  show ?case
  proof (cases "match_image (c # cs)")
    case None
    with 2 show ?thesis by simp
  next
    case (Some rest)
    with 2 have "length (sub_image rest) \<le> length rest" by simp
    moreover have "length rest < length (c # cs)"
      using Some by (rule match_image_shorter)
    ultimately show ?thesis using Some by simp
  qed
qed

lemma sub_image_fixed: "length (sub_image s) = length s \<Longrightarrow> sub_image s = s"
proof (induction s rule: sub_image.induct)
  case 1
  then show ?case by simp
next
  case (2 c cs)
  show ?case
  proof (cases "match_image (c # cs)")
    case None
    with 2 show ?thesis by simp
  next
    case (Some rest)
    have "length (sub_image rest) \<le> length rest" by (rule length_sub_image)
    moreover have "length rest < length (c # cs)"
      using Some by (rule match_image_shorter)
    ultimately have "length (sub_image (c # cs)) < length (c # cs)"
      using Some by simp
    with 2(3) show ?thesis by simp
  qed
qed

text \<open>
  A string is a fixed point of the normalizer exactly when none of the four steps has
  anything to remove from it: every step only deletes characters.
\<close>

lemma clean_fixed_iff:
  "clean_markdown_content y = y \<longleftrightarrow>
     sub_link y = y \<and> sub_image y = y \<and> \<not> contains ''**'' y \<and> newline \<notin> set y"
proof
  assume f: "clean_markdown_content y = y"
  let ?a = "sub_link y"
  let ?b = "sub_image ?a"
  let ?c = "replace_ne ''**'' [] ?b"
  let ?d = "filter (\<lambda>x. x \<noteq> newline) ?c"
  have d: "?d = y"
    using f by (simp add: clean_markdown_content_def replace_single replace_pair_def)
  have "length ?d \<le> length ?c" by simp
  moreover have "length ?c \<le> length ?b" by (rule length_replace_ne)
  moreover have "length ?b \<le> length ?a" by (rule length_sub_image)
  moreover have "length ?a \<le> length y" by (rule length_sub_link)
  ultimately have eq: "length ?a = length y" "length ?b = length ?a" "length ?c = length ?b"
    "length ?d = length ?c"
    using d by simp_all
  have a: "?a = y" using eq(1) by (rule sub_link_fixed)
  have b: "sub_image y = y" using eq(2) a sub_image_fixed [of y] by simp
  have c: "replace_ne ''**'' [] y = y"
  proof (rule ccontr)
    assume "replace_ne ''**'' [] y \<noteq> y"
    then have "contains ''**'' y" by (simp add: replace_fixed_iff)
    then have "length (replace_ne ''**'' [] y) < length y" by (rule replace_pair_shorter)
    then show False using eq(3) a b by simp
  qed
  have "newline \<notin> set y"
    using newline_not_in_clean [of y] f by simp
  then show "sub_link y = y \<and> sub_image y = y \<and> \<not> contains ''**'' y \<and> newline \<notin> set y"
    using a b c by (simp add: replace_fixed_iff)
next
  assume "sub_link y = y \<and> sub_image y = y \<and> \<not> contains ''**'' y \<and> newline \<notin> set y"
  then show "clean_markdown_content y = y"
    by (auto simp: clean_markdown_content_def replace_single replace_pair_def
        replace_without_pair filter_id_conv)
qed

text \<open>
  Claim C2, amended. Normalizing twice is normalizing once exactly when the
  normalized string holds no match of the link pattern, no match of the image pattern
  and no \<open>**\<close>. That is so whenever the normalized string holds no opening bracket
  and no \<open>**\<close>, as for the specification's \<open>[label](http://x)\<close>, and in particular
  for every string without opening bracket that has no newline or no asterisk. The
  normalized string never holds a newline.
\<close>

theorem clean_idempotent_on_plain_output:
  "(clean_markdown_content (clean_markdown_content x) = clean_markdown_content x \<longleftrightarrow>
      sub_link (clean_markdown_content x) = clean_markdown_content x \<and>
      sub_image (clean_markdown_content x) = clean_markdown_content x \<and>
      \<not> contains ''**'' (clean_markdown_content x)) \<and>
   (CHR ''['' \<notin> set (clean_markdown_content x) \<and>
    \<not> contains ''**'' (clean_markdown_content x) \<longrightarrow>
      clean_markdown_content (clean_markdown_content x) = clean_markdown_content x) \<and>
   (CHR ''['' \<notin> set x \<and> (newline \<notin> set x \<or> CHR ''*'' \<notin> set x) \<longrightarrow>
      CHR ''['' \<notin> set (clean_markdown_content x) \<and>
      \<not> contains ''**'' (clean_markdown_content x)) \<and>
   newline \<notin> set (clean_markdown_content x)"
proof (intro conjI impI)
  let ?y = "clean_markdown_content x"
  show n: "newline \<notin> set ?y" by (rule newline_not_in_clean)
  show "clean_markdown_content ?y = ?y \<longleftrightarrow>
      sub_link ?y = ?y \<and> sub_image ?y = ?y \<and> \<not> contains ''**'' ?y"
    using clean_fixed_iff [of ?y] n by simp
  show "clean_markdown_content ?y = ?y"
    if "CHR ''['' \<notin> set ?y \<and> \<not> contains ''**'' ?y"
    using that n clean_fixed_iff [of ?y]
    by (simp add: sub_link_no_bracket sub_image_no_bracket)
next
  assume a: "CHR ''['' \<notin> set x \<and> (newline \<notin> set x \<or> CHR ''*'' \<notin> set x)"
  have sub: "set (clean_markdown_content x) \<subseteq> set x"
    using a set_replace_ne [of "''**''" x]
    by (auto simp: clean_markdown_content_def sub_link_no_bracket sub_image_no_bracket
        replace_single replace_pair_def)
  then show "CHR ''['' \<notin> set (clean_markdown_content x)"
    using a by auto
  show "\<not> contains ''**'' (clean_markdown_content x)"
  proof (cases "newline \<in> set x")
    case False
    have "set (replace_ne ''**'' [] x) \<subseteq> set x" by (rule set_replace_ne)
    then have "newline \<notin> set (replace_ne ''**'' [] x)" using False by auto
    then have "clean_markdown_content x = replace_ne ''**'' [] x"
      using a by (auto simp: clean_markdown_content_def sub_link_no_bracket
          sub_image_no_bracket replace_single replace_pair_def filter_id_conv)
    then show ?thesis
      using replace_stars_idem [of x] by (simp add: replace_fixed_iff)
  next
    case True
    with a have "CHR ''*'' \<notin> set x" by blast
    then have "CHR ''*'' \<notin> set (clean_markdown_content x)" using sub by auto
    then show ?thesis by (rule star_free_no_pair)
  qed
qed

theorem clean_idempotent_witness:
  "CHR ''['' \<notin> set (clean_markdown_content ''[label](http://x)'') \<and>
   \<not> contains ''**'' (clean_markdown_content ''[label](http://x)'') \<and>
   clean_markdown_content (clean_markdown_content ''[label](http://x)'')
     = clean_markdown_content ''[label](http://x)'' \<and>
   clean_markdown_content ''[label](http://x)'' = ''label'' \<and>
   CHR ''['' \<notin> set ''a**b***c'' \<and> newline \<notin> set ''a**b***c'' \<and>
   \<not> contains ''**'' (clean_markdown_content ''a**b***c'') \<and>
   clean_markdown_content (clean_markdown_content ''a**b***c'')
     = clean_markdown_content ''a**b***c'' \<and>
   clean_markdown_content ''a**b***c'' = ''ab*c'' \<and>
   sub_link ''[a]*'' = ''[a]*'' \<and> sub_image ''[a]*'' = ''[a]*'' \<and>
   clean_markdown_content ''[a]*'' = ''[a]*'' \<and>
   clean_markdown_content (clean_markdown_content ''[a]*'') = clean_markdown_content ''[a]*''"
proof -
  have v: "clean_markdown_content ''[label](http://x)'' = ''label''"
    "clean_markdown_content ''a**b***c'' = ''ab*c''"
    "clean_markdown_content ''[a]*'' = ''[a]*''"
    "sub_link ''[a]*'' = ''[a]*''" "sub_image ''[a]*'' = ''[a]*''"
    by (simp_all add: clean_markdown_content_def match_link_def match_image_def
        pattern_tail_def replace_def newline_def)
  have h: "CHR ''['' \<notin> set ''a**b***c''" "newline \<notin> set ''a**b***c''"
    by (simp_all add: newline_def)
  note t = clean_idempotent_on_plain_output
  have 1: "clean_markdown_content (clean_markdown_content ''[label](http://x)'')
     = clean_markdown_content ''[label](http://x)''"
    using t [of "''[label](http://x)''", THEN conjunct2, THEN conjunct1] by (simp add: v)
  have 2: "\<not> contains ''**'' (clean_markdown_content ''a**b***c'')"
    using t [of "''a**b***c''", THEN conjunct2, THEN conjunct2, THEN conjunct1] h by blast
  have 3: "clean_markdown_content (clean_markdown_content ''a**b***c'')
     = clean_markdown_content ''a**b***c''"
    using t [of "''a**b***c''", THEN conjunct2, THEN conjunct1] 2 by (simp add: v)
  have 4: "clean_markdown_content (clean_markdown_content ''[a]*'') = clean_markdown_content ''[a]*''"
    using t [of "''[a]*''", THEN conjunct1] by (simp add: v)
  show ?thesis
    using v h 1 2 3 4 by simp
qed

section \<open>The sample directory, evaluated\<close>

lemma strip_id: "s \<noteq> [] \<Longrightarrow> \<not> isspace (hd s) \<Longrightarrow> \<not> isspace (last s) \<Longrightarrow> strip s = s"
proof -
  assume a: "s \<noteq> []" "\<not> isspace (hd s)" "\<not> isspace (last s)"
  then have "dropWhile isspace s = s"
    by (cases s) auto
  moreover have "dropWhile isspace (rev s) = rev s"
    using a by (cases "rev s") (auto simp: hd_rev [symmetric] simp del: hd_rev)
  ultimately show ?thesis by (simp add: strip_def)
qed

lemma split_ws_dropWhile: "split_ws (dropWhile isspace s) = split_ws s"
  by (subst (1 2) split_ws.simps) simp

lemma split_ws_space: "isspace c \<Longrightarrow> split_ws (c # s) = split_ws s"
  using split_ws_dropWhile [of "c # s"] split_ws_dropWhile [of s] by simp

lemma split_ws_letter_space:
  "\<not> isspace c \<Longrightarrow> isspace d \<Longrightarrow> split_ws (c # d # s) = [c] # split_ws s"
  by (subst split_ws.simps) (simp add: split_ws_space)

lemma split_ws_replicate:
  "split_ws (concat (replicate n ''a '') @ s) = replicate n ''a'' @ split_ws s"
  by (induction n) (simp_all add: split_ws_letter_space isspace_def)

lemma words_set: "set (concat (replicate n ''a '') @ ''a'') \<subseteq> {CHR ''a'', CHR '' ''}"
  by auto

lemma words_hd: "hd (concat (replicate n ''a '') @ ''a'') = CHR ''a''"
  by (cases n) simp_all

lemma words_last: "last (concat (replicate n ''a '') @ ''a'') = CHR ''a''"
  by simp

lemma words_nonempty: "concat (replicate n ''a '') @ ''a'' \<noteq> []"
  by simp

lemma words_count: "split_ws (concat (replicate n ''a '') @ ''a'') = replicate n ''a'' @ [''a'']"
proof -
  have "split_ws ''a'' = [''a'']"
    by (subst split_ws.simps, simp add: isspace_def, subst split_ws.simps, simp)
  then show ?thesis
    by (simp only: split_ws_replicate)
qed

lemma set_long_chunk: "set long_chunk \<subseteq> {CHR ''a'', CHR '' ''}"
  unfolding long_chunk_def by (rule words_set)

lemma long_chunk_plain:
  "CHR ''['' \<notin> set long_chunk" "CHR ''*'' \<notin> set long_chunk" "newline \<notin> set long_chunk"
  using set_long_chunk by (auto simp: newline_def)

lemma strip_long_chunk: "strip long_chunk = long_chunk"
proof (rule strip_id)
  show "long_chunk \<noteq> []"
    unfolding long_chunk_def by (rule words_nonempty)
  have "hd long_chunk = CHR ''a''"
    unfolding long_chunk_def by (rule words_hd)
  then show "\<not> isspace (hd long_chunk)" by (simp add: isspace_def)
  have "last long_chunk = CHR ''a''"
    unfolding long_chunk_def by (rule words_last)
  then show "\<not> isspace (last long_chunk)" by (simp add: isspace_def)
qed

lemma clean_long_chunk: "clean_markdown_content long_chunk = long_chunk"
  by (rule clean_plain) (rule long_chunk_plain)+

lemma tokens_long_chunk: "num_tokens_from_string long_chunk = 8192"
proof -
  have "length (split_ws long_chunk) = 8191 + 1"
    unfolding long_chunk_def words_count by (simp only: length_append length_replicate) simp
  then show ?thesis
    by (simp add: num_tokens_from_string_def)
qed

lemma long_chunk_overflows: "chunk_overflows long_chunk"
  by (simp add: chunk_overflows_def strip_long_chunk clean_long_chunk tokens_long_chunk
      MAX_INPUT_TOKENS_def)

lemma split_acc_last:
  "newline \<notin> set a \<Longrightarrow> split_acc [newline, newline] acc a = [rev acc @ a]"
  by (induction a arbitrary: acc) auto

lemma split_acc_piece:
  "newline \<notin> set a \<Longrightarrow>
   split_acc [newline, newline] acc (a @ newline # newline # b)
     = (rev acc @ a) # split_acc [newline, newline] [] b"
  by (induction a arbitrary: acc) auto

lemma split_piece:
  "newline \<notin> set a \<Longrightarrow> split [newline, newline] (a @ newline # newline # b)
     = a # split [newline, newline] b"
  by (simp add: split_def split_acc_piece)

lemma split_last: "newline \<notin> set a \<Longrightarrow> split [newline, newline] a = [a]"
  by (simp add: split_def split_acc_last)

lemma sample_paragraphs:
  "extract_text_from_file sample_env (input_directory @ ''a.csv'')
     = Inr (Some [''Intro.'', long_chunk, ''Tail''])"
proof -
  have "split [newline, newline]
          (''Intro.'' @ newline # newline # long_chunk @ newline # newline # ''Tail'')
        = [''Intro.'', long_chunk, ''Tail'']"
    using split_piece [of "''Intro.''"] split_piece [of long_chunk] split_last [of "''Tail''"]
      long_chunk_plain(3)
    by (simp add: newline_def)
  then show ?thesis
    by (simp add: extract_text_from_file_def read_content_def sample_env_def
        input_directory_def endswith_def)
qed

section \<open>Runs over the sample directory\<close>

lemma sample_supported:
  "\<not> endswith_any ''notes.txt'' suported_file_types"
  "endswith_any ''a.csv'' suported_file_types"
  "endswith_any ''b.csv'' suported_file_types"
  "endswith_any ''c.csv'' suported_file_types"
  "endswith_any ''empty.csv'' suported_file_types"
  "endswith_any ''d.csv'' suported_file_types"
  "endswith_any ''w.csv'' suported_file_types"
  "endswith_any ''missing.csv'' suported_file_types"
  by code_simp+

lemma sample_titles:
  "splitext_root ''a.csv'' = ''a''" "splitext_root ''b.csv'' = ''b''"
  "splitext_root ''c.csv'' = ''c''" "splitext_root ''d.csv'' = ''d''"
  "splitext_root ''w.csv'' = ''w''"
  by code_simp+

lemma sample_extracts:
  "extract_text_from_file sample_env (input_directory @ ''b.csv'') = Inr (Some [''Second doc''])"
  "extract_text_from_file sample_env (input_directory @ ''c.csv'') = Inr (Some [''unavailable''])"
  "extract_text_from_file sample_env (input_directory @ ''empty.csv'') = Inr None"
  "extract_text_from_file sample_env (input_directory @ ''w.csv'') = Inr (Some [''Locked''])"
  "extract_text_from_file sample_env (input_directory @ ''missing.csv'')
     = Inl (FileNotFoundError (input_directory @ ''missing.csv''))"
  by (simp_all add: extract_text_from_file_def read_content_def sample_env_def
        input_directory_def endswith_def split_def newline_def)

lemma sample_contents:
  "clean_markdown_content (strip ''Intro.'') = ''Intro.''"
  "clean_markdown_content (strip ''Tail'') = ''Tail''"
  "clean_markdown_content (strip ''Second doc'') = ''Second doc''"
  "clean_markdown_content (strip ''unavailable'') = ''unavailable''"
  "clean_markdown_content (strip ''Locked'') = ''Locked''"
  "clean_markdown_content (strip long_chunk) = long_chunk"
  by (code_simp, code_simp, code_simp, code_simp, code_simp,
      simp add: strip_long_chunk clean_long_chunk)

lemma sample_tokens:
  "num_tokens_from_string ''Intro.'' = 1"
  "num_tokens_from_string ''Tail'' = 1"
  "num_tokens_from_string ''Second doc'' = 2"
  "num_tokens_from_string ''unavailable'' = 1"
  "num_tokens_from_string ''Locked'' = 1"
  by code_simp+

lemma sample_chunk_titles:
  "derive_chunk_title ''Intro.'' = ''Intro.''"
  "derive_chunk_title ''Second doc'' = ''Second doc''"
  by code_simp+

lemma sample_file_names:
  "chunk_file_name (Suc 0) ''a'' = ''chunk_1_a.json''"
  "chunk_file_name (Suc (Suc (Suc 0))) ''b'' = ''chunk_3_b.json''"
  "chunk_file_name 3 ''b'' = ''chunk_3_b.json''"
  "chunk_file_name (Suc 0) ''c'' = ''chunk_1_c.json''"
  "chunk_file_name (Suc 0) ''w'' = ''chunk_1_w.json''"
  "chunk_file_name (Suc 0) ''b'' = ''chunk_1_b.json''"
  by code_simp+

lemma sample_embeddings:
  "get_embeddings_vector sample_env ''Intro.'' = Some [6]"
  "get_embeddings_vector sample_env ''Second doc'' = Some [10]"
  "get_embeddings_vector sample_env ''unavailable'' = None"
  "get_embeddings_vector sample_env ''Locked'' = Some [6]"
  by (simp_all add: sample_env_def)

lemma sample_writable:
  "writable sample_env p \<longleftrightarrow> p \<noteq> ''./data/chunks//chunk_1_w.json''"
  by (simp add: sample_env_def)

lemma sample_paragraphs_d:
  "extract_text_from_file sample_env (input_directory @ ''d.csv'')
     = Inr (Some [''unavailable'', long_chunk])"
proof -
  have "split [newline, newline] (''unavailable'' @ newline # newline # long_chunk)
        = [''unavailable'', long_chunk]"
    using split_piece [of "''unavailable''"] split_last [of long_chunk] long_chunk_plain(3)
    by (simp add: newline_def)
  then show ?thesis
    by (simp add: extract_text_from_file_def read_content_def sample_env_def
        input_directory_def endswith_def)
qed

lemma sample_uuids:
  "uuid4 sample_env 0 = ''uuid-0''"
  "uuid4 sample_env (Suc 0) = ''uuid-1''"
  by code_simp+

lemma sample_chunks_a:
  "process_chunks sample_env ''a'' [''Intro.'', long_chunk, ''Tail''] initial_state =
     Break \<lparr>chunk_index = 2, uuids_drawn = 1, embed_requests = [''Intro.''],
        staged = [(''./data/chunks//chunk_1_a.json'',
                   \<lparr>chunk_id = ''uuid-0'', page_title = ''a'', chunk_title = ''Intro.'',
                    chunk_content = ''Intro.'', vector = [6]\<rparr>)]\<rparr>"
  by (simp add: initial_state_def Let_def sample_contents sample_tokens tokens_long_chunk
      MAX_INPUT_TOKENS_def sample_embeddings sample_uuids sample_chunk_titles sample_file_names
      staging_path_def sample_writable output_directory_def)

lemma sample_chunks_b:
  "process_chunks sample_env ''b'' [''Second doc'']
     \<lparr>chunk_index = 2, uuids_drawn = Suc 0, embed_requests = [''Intro.''],
        staged = [(''./data/chunks//chunk_1_a.json'',
                   \<lparr>chunk_id = ''uuid-0'', page_title = ''a'', chunk_title = ''Intro.'',
                    chunk_content = ''Intro.'', vector = [6]\<rparr>)]\<rparr> =
     Exhausted \<lparr>chunk_index = 3, uuids_drawn = 2,
        embed_requests = [''Intro.'', ''Second doc''],
        staged = [(''./data/chunks//chunk_1_a.json'',
                   \<lparr>chunk_id = ''uuid-0'', page_title = ''a'', chunk_title = ''Intro.'',
                    chunk_content = ''Intro.'', vector = [6]\<rparr>),
                  (''./data/chunks//chunk_3_b.json'',
                   \<lparr>chunk_id = ''uuid-1'', page_title = ''b'', chunk_title = ''Second doc'',
                    chunk_content = ''Second doc'', vector = [10]\<rparr>)]\<rparr>"
  by (simp add: Let_def sample_contents sample_tokens
      MAX_INPUT_TOKENS_def sample_embeddings sample_uuids sample_chunk_titles sample_file_names
      staging_path_def sample_writable output_directory_def)

lemma sample_run:
  "run_ingestion sample_env [''notes.txt'', ''a.csv'', ''b.csv''] =
     Finished \<lparr>chunk_index = 3, uuids_drawn = 2, embed_requests = [''Intro.'', ''Second doc''],
        staged = [(''./data/chunks//chunk_1_a.json'',
                   \<lparr>chunk_id = ''uuid-0'', page_title = ''a'', chunk_title = ''Intro.'',
                    chunk_content = ''Intro.'', vector = [6]\<rparr>),
                  (''./data/chunks//chunk_3_b.json'',
                   \<lparr>chunk_id = ''uuid-1'', page_title = ''b'', chunk_title = ''Second doc'',
                    chunk_content = ''Second doc'', vector = [10]\<rparr>)]\<rparr>"
  by (simp add: run_ingestion_def process_document_def sample_supported sample_titles
      sample_paragraphs sample_extracts sample_chunks_a sample_chunks_b
      del: process_chunks.simps)

section \<open>The token counter counts words\<close>

lemma word_starts_continue:
  "word_starts False s = word_starts True (dropWhile (\<lambda>x. \<not> isspace x) s)"
  by (induction s) auto

lemma word_starts_leading: "word_starts True s = word_starts True (dropWhile isspace s)"
  by (induction s) auto

lemma length_split_ws: "length (split_ws s) = word_starts True s"
proof (induction s rule: split_ws.induct)
  case (1 s)
  show ?case
  proof (cases "dropWhile isspace s")
    case Nil
    have "word_starts True s = 0"
      using word_starts_leading [of s] by (simp add: Nil)
    then show ?thesis by (subst split_ws.simps) (simp add: Nil)
  next
    case (Cons c cs)
    then have c: "\<not> isspace c"
      by (metis hd_dropWhile list.distinct(1) list.sel(1))
    have "word_starts True s = word_starts True (c # cs)"
      using word_starts_leading [of s] Cons by simp
    also have "\<dots> = 1 + word_starts True (dropWhile (\<lambda>x. \<not> isspace x) cs)"
      using c word_starts_continue [of cs] by simp
    finally show ?thesis
      using 1 [OF Cons] by (subst split_ws.simps) (simp add: Cons)
  qed
qed

lemma split_ws_lead: "list_all isspace lead \<Longrightarrow> split_ws (lead @ s) = split_ws s"
  by (induction lead) (simp_all add: split_ws_space)

lemma split_ws_word:
  assumes "w \<noteq> []" and "list_all (\<lambda>c. \<not> isspace c) w" and "rest = [] \<or> isspace (hd rest)"
  shows "split_ws (w @ rest) = w # split_ws rest"
proof -
  obtain c w' where w: "w = c # w'" using assms(1) by (cases w) auto
  have ns: "\<not> isspace c" "\<forall>x\<in>set w'. \<not> isspace x"
    using assms(2) w by (auto simp: list_all_iff)
  have stop: "takeWhile (\<lambda>x. \<not> isspace x) rest = []" "dropWhile (\<lambda>x. \<not> isspace x) rest = rest"
    using assms(3) by (cases rest; simp)+
  have t: "takeWhile (\<lambda>x. \<not> isspace x) (w' @ rest) = w'"
    using ns(2) stop by (simp add: takeWhile_append2)
  have d: "dropWhile (\<lambda>x. \<not> isspace x) (w' @ rest) = rest"
    using ns(2) stop by (simp add: dropWhile_append2)
  show ?thesis
    unfolding w using ns(1) t d by (subst split_ws.simps) simp
qed

text \<open>
  Claim C10. The counter that the loop calls is the later definition,
  \<open>len(content.split())\<close>. Its value is the number of whitespace-separated words of
  the string, counted here without splitting, as the number of places where a word
  starts; it is never negative. A string of whitespace only splits into nothing and
  counts 0. After leading whitespace, a non-empty run of characters that are not
  whitespace, followed by whitespace or by the end of the string, is one word: it is
  the first piece of the split and adds one to the count of what follows. The
  comparison with 8191 in the loop is a comparison of that number of words, and a chunk
  over it makes the loop leave by \<open>break\<close> with only the counter changed.
\<close>

theorem num_tokens_counts_words:
  "num_tokens_from_string content = int (word_starts True content) \<and>
   0 \<le> num_tokens_from_string content \<and>
   (list_all isspace content \<longrightarrow>
      split_ws content = [] \<and> num_tokens_from_string content = 0) \<and>
   (list_all isspace lead \<and> w \<noteq> [] \<and> list_all (\<lambda>c. \<not> isspace c) w \<and>
    (rest = [] \<or> isspace (hd rest)) \<longrightarrow>
      split_ws (lead @ w @ rest) = w # split_ws rest \<and>
      num_tokens_from_string (lead @ w @ rest) = 1 + num_tokens_from_string rest) \<and>
   (chunk_overflows chunk \<longleftrightarrow>
      8191 < word_starts True (clean_markdown_content (strip chunk))) \<and>
   (chunk_overflows chunk \<longrightarrow>
      process_chunks env title (chunk # chunks) st
        = Break (st\<lparr>chunk_index := chunk_index st + 1\<rparr>))"
proof (intro conjI impI)
  show "num_tokens_from_string content = int (word_starts True content)"
    by (simp add: num_tokens_from_string_def length_split_ws)
  show "0 \<le> num_tokens_from_string content"
    by (simp add: num_tokens_from_string_def)
  show "chunk_overflows chunk \<longleftrightarrow>
      8191 < word_starts True (clean_markdown_content (strip chunk))"
    by (simp add: chunk_overflows_def MAX_INPUT_TOKENS_def num_tokens_from_string_def
        length_split_ws)
next
  assume "list_all isspace content"
  then show "split_ws content = []" by (simp add: split_ws_Nil_iff)
  then show "num_tokens_from_string content = 0" by (simp add: num_tokens_from_string_def)
next
  assume a: "list_all isspace lead \<and> w \<noteq> [] \<and> list_all (\<lambda>c. \<not> isspace c) w \<and>
    (rest = [] \<or> isspace (hd rest))"
  then show s: "split_ws (lead @ w @ rest) = w # split_ws rest"
    by (simp add: split_ws_lead split_ws_word)
  show "num_tokens_from_string (lead @ w @ rest) = 1 + num_tokens_from_string rest"
    by (simp add: num_tokens_from_string_def s)
next
  assume "chunk_overflows chunk"
  then show "process_chunks env title (chunk # chunks) st
        = Break (st\<lparr>chunk_index := chunk_index st + 1\<rparr>)"
    by (rule process_chunks_overflow)
qed

theorem num_tokens_counts_words_witness:
  "num_tokens_from_string ''one two  three'' = 3 \<and>
   list_all isspace [CHR '' '', CHR 0x09, CHR 0x0A] \<and>
   split_ws [CHR '' '', CHR 0x09, CHR 0x0A] = [] \<and>
   num_tokens_from_string [CHR '' '', CHR 0x09, CHR 0x0A] = 0 \<and>
   list_all isspace '' '' \<and> ''one'' \<noteq> [] \<and> list_all (\<lambda>c. \<not> isspace c) ''one'' \<and>
   isspace (hd '' two  three'') \<and>
   split_ws ('' '' @ ''one'' @ '' two  three'') = ''one'' # split_ws '' two  three'' \<and>
   num_tokens_from_string ('' '' @ ''one'' @ '' two  three'')
     = 1 + num_tokens_from_string '' two  three'' \<and>
   chunk_overflows long_chunk \<and>
   8191 < word_starts True (clean_markdown_content (strip long_chunk)) \<and>
   process_chunks sample_env ''a'' [long_chunk, ''Tail''] initial_state
     = Break (initial_state\<lparr>chunk_index := chunk_index (initial_state :: nat list state) + 1\<rparr>)"
proof -
  have h: "list_all isspace [CHR '' '', CHR 0x09, CHR 0x0A]"
    by (simp add: isspace_def)
  have l: "list_all isspace '' ''" "''one'' \<noteq> []" "list_all (\<lambda>c. \<not> isspace c) ''one''"
    "isspace (hd '' two  three'')"
    by (simp_all add: isspace_def)
  have three: "int (word_starts True ''one two  three'') = 3"
    by (simp add: isspace_def)
  note t = num_tokens_counts_words
  have 1: "num_tokens_from_string ''one two  three'' = 3"
    using t [of "''one two  three''", THEN conjunct1] three by (simp only:)
  have 2: "split_ws [CHR '' '', CHR 0x09, CHR 0x0A] = []"
    "num_tokens_from_string [CHR '' '', CHR 0x09, CHR 0x0A] = 0"
    using t [of "[CHR '' '', CHR 0x09, CHR 0x0A]",
             THEN conjunct2, THEN conjunct2, THEN conjunct1] h by blast+
  have 3: "split_ws ('' '' @ ''one'' @ '' two  three'') = ''one'' # split_ws '' two  three''"
    "num_tokens_from_string ('' '' @ ''one'' @ '' two  three'')
       = 1 + num_tokens_from_string '' two  three''"
    using t [where lead = "'' ''" and w = "''one''" and rest = "'' two  three''",
             THEN conjunct2, THEN conjunct2, THEN conjunct2, THEN conjunct1] l by blast+
  have 4: "8191 < word_starts True (clean_markdown_content (strip long_chunk))"
    using t [where chunk = long_chunk,
             THEN conjunct2, THEN conjunct2, THEN conjunct2, THEN conjunct2, THEN conjunct1]
      long_chunk_overflows by blast
  have 5: "process_chunks sample_env ''a'' [long_chunk, ''Tail''] initial_state
     = Break (initial_state\<lparr>chunk_index := chunk_index (initial_state :: nat list state) + 1\<rparr>)"
    using t [where chunk = long_chunk and env = sample_env and title = "''a''"
               and chunks = "[''Tail'']" and st = initial_state,
             THEN conjunct2, THEN conjunct2, THEN conjunct2, THEN conjunct2, THEN conjunct2]
      long_chunk_overflows by blast
  show ?thesis
    using h l 1 2 3 4 5 long_chunk_overflows by (intro conjI)
qed

section \<open>No overflow is ever persisted\<close>

lemma candidates_member:
  "filename \<in> set listing \<Longrightarrow>
   extract_text_from_file env (input_directory @ filename) = Inr (Some paragraphs) \<Longrightarrow>
   chunk \<in> set paragraphs \<Longrightarrow>
   clean_markdown_content (strip chunk) \<in> set (normalized_candidates env listing)"
  by (force simp: normalized_candidates_def)

lemma initial_inv: "state_inv Q R initial_state"
  by (simp add: state_inv_def initial_state_def)

text \<open>
  Claim C1. In the state a run ends in, whether it finishes or is ended by an
  exception: every file written to the staging directory holds a \<open>chunk_content\<close>
  of at most 8191 tokens, as \<open>num_tokens_from_string\<close> counts them, and that content
  is one of the run's normalized candidates, whole; the same holds of every text sent
  to the embedding service. Hence a candidate of more than 8191 tokens is neither
  sent to the embedding service nor written.
\<close>

theorem persisted_chunks_within_token_limit:
  assumes "st = final_state (run_ingestion env listing)"
  shows "((path, d) \<in> set (staged st) \<longrightarrow>
            num_tokens_from_string (chunk_content d) \<le> 8191 \<and>
            chunk_content d \<in> set (normalized_candidates env listing)) \<and>
         (t \<in> set (embed_requests st) \<longrightarrow>
            num_tokens_from_string t \<le> 8191 \<and>
            t \<in> set (normalized_candidates env listing)) \<and>
         (8191 < num_tokens_from_string c \<longrightarrow>
            c \<notin> set (embed_requests st) \<and> c \<notin> set (map (chunk_content \<circ> snd) (staged st)))"
proof -
  let ?R = "\<lambda>t. num_tokens_from_string t \<le> 8191 \<and> t \<in> set (normalized_candidates env listing)"
  let ?Q = "\<lambda>(p, d). ?R (chunk_content d)"
  have "state_inv ?Q ?R (final_state (ingest env listing initial_state))"
  proof (rule ingest_inv [OF _ initial_inv])
    fix filename paragraphs chunk k u and v :: 'a
    assume "filename \<in> set listing"
      "extract_text_from_file env (input_directory @ filename) = Inr (Some paragraphs)"
      "chunk \<in> set paragraphs" "\<not> chunk_overflows chunk"
    then have "?R (clean_markdown_content (strip chunk))"
      using candidates_member [of filename listing env paragraphs chunk]
      by (simp add: chunk_overflows_def MAX_INPUT_TOKENS_def)
    then show "?R (clean_markdown_content (strip chunk)) \<and>
      ?Q (staging_path k (splitext_root filename),
         \<lparr>chunk_id = u, page_title = splitext_root filename,
          chunk_title = derive_chunk_title (clean_markdown_content (strip chunk)),
          chunk_content = clean_markdown_content (strip chunk), vector = v\<rparr>)"
      by simp
  qed
  then have inv: "list_all ?Q (staged st)" "list_all ?R (embed_requests st)"
    using assms by (simp_all add: state_inv_def run_ingestion_def)
  show ?thesis
    using inv by (auto simp: list_all_iff)
qed

theorem persisted_chunks_within_token_limit_witness:
  "(''./data/chunks//chunk_3_b.json'',
      \<lparr>chunk_id = ''uuid-1'', page_title = ''b'', chunk_title = ''Second doc'',
       chunk_content = ''Second doc'', vector = [10]\<rparr>)
     \<in> set (staged (final_state (run_ingestion sample_env [''notes.txt'', ''a.csv'', ''b.csv'']))) \<and>
   ''Intro.'' \<in> set (embed_requests
       (final_state (run_ingestion sample_env [''notes.txt'', ''a.csv'', ''b.csv'']))) \<and>
   num_tokens_from_string ''Second doc'' \<le> 8191 \<and>
   num_tokens_from_string ''Intro.'' \<le> 8191 \<and>
   8191 < num_tokens_from_string long_chunk \<and>
   long_chunk \<in> set (normalized_candidates sample_env [''notes.txt'', ''a.csv'', ''b.csv'']) \<and>
   long_chunk \<notin> set (embed_requests
       (final_state (run_ingestion sample_env [''notes.txt'', ''a.csv'', ''b.csv''])))"
proof -
  let ?st = "final_state (run_ingestion sample_env [''notes.txt'', ''a.csv'', ''b.csv''])"
  let ?d = "\<lparr>chunk_id = ''uuid-1'', page_title = ''b'', chunk_title = ''Second doc'',
       chunk_content = ''Second doc'', vector = [10::nat]\<rparr>"
  have m: "(''./data/chunks//chunk_3_b.json'', ?d) \<in> set (staged ?st)"
    "''Intro.'' \<in> set (embed_requests ?st)"
    by (simp_all add: sample_run)
  have big: "8191 < num_tokens_from_string long_chunk"
    by (simp add: tokens_long_chunk)
  have cand: "long_chunk \<in> set (normalized_candidates sample_env [''notes.txt'', ''a.csv'', ''b.csv''])"
    using candidates_member [of "''a.csv''" "[''notes.txt'', ''a.csv'', ''b.csv'']" sample_env
        "[''Intro.'', long_chunk, ''Tail'']" long_chunk] sample_paragraphs
    by (simp add: sample_contents)
  from persisted_chunks_within_token_limit
    [of ?st sample_env "[''notes.txt'', ''a.csv'', ''b.csv'']"
        "''./data/chunks//chunk_3_b.json''" ?d "''Intro.''" long_chunk]
    m big cand
  show ?thesis by simp
qed

section \<open>The chunk title and its truncation\<close>

lemma split_acc_nonempty: "split_acc sep acc s \<noteq> []"
  by (induction sep acc s rule: split_acc.induct) auto

lemma length_limit_title:
  "length (limit_title t) \<le> 203"
  by (simp add: limit_title_def)

lemma sample_run_t:
  "staged (final_state (run_ingestion sample_env [''t.csv''])) =
     [(''./data/chunks//chunk_1_t.json'',
       \<lparr>chunk_id = ''uuid-0'', page_title = ''t'',
        chunk_title = replicate 200 CHR ''x'' @ ''...'',
        chunk_content = replicate 201 CHR ''x'', vector = [201]\<rparr>)]"
  by code_simp

text \<open>
  Claim C5. For every chunk file written by a run, with the derived title being what
  the code derives before it truncates (the first piece of the content, stripped):
  if the derived title is longer than 200 characters, the title written is its first
  200 characters followed by the three dots, at most 203 characters; otherwise the
  title written is the derived title.
\<close>

theorem chunk_title_truncation:
  assumes "(path, d) \<in> set (staged (final_state (run_ingestion env listing)))"
    and "derived = first_sentence (chunk_content d)"
  shows "(200 < length derived \<longrightarrow>
            chunk_title d = take 200 derived @ ''...'' \<and> length (chunk_title d) \<le> 203) \<and>
         (length derived \<le> 200 \<longrightarrow> chunk_title d = derived)"
proof -
  let ?Q = "\<lambda>(p, d). chunk_title d = limit_title (first_sentence (chunk_content d))"
  have "state_inv ?Q (\<lambda>t. True) (final_state (ingest env listing initial_state))"
    by (rule ingest_inv [OF _ initial_inv]) (simp add: derive_chunk_title_def)
  then have "chunk_title d = limit_title derived"
    using assms by (auto simp: state_inv_def run_ingestion_def list_all_iff)
  then show ?thesis
    by (simp add: limit_title_def)
qed

theorem chunk_title_truncation_witness:
  "(''./data/chunks//chunk_3_b.json'',
      \<lparr>chunk_id = ''uuid-1'', page_title = ''b'', chunk_title = ''Second doc'',
       chunk_content = ''Second doc'', vector = [10]\<rparr>)
     \<in> set (staged (final_state (run_ingestion sample_env [''notes.txt'', ''a.csv'', ''b.csv'']))) \<and>
   first_sentence ''Second doc'' = ''Second doc'' \<and>
   length ''Second doc'' \<le> 200 \<and>
   (''./data/chunks//chunk_1_t.json'',
      \<lparr>chunk_id = ''uuid-0'', page_title = ''t'',
       chunk_title = replicate 200 CHR ''x'' @ ''...'',
       chunk_content = replicate 201 CHR ''x'', vector = [201]\<rparr>)
     \<in> set (staged (final_state (run_ingestion sample_env [''t.csv'']))) \<and>
   200 < length (first_sentence (replicate 201 CHR ''x'')) \<and>
   length (replicate 200 CHR ''x'' @ ''...'') \<le> 203"
proof -
  let ?d = "\<lparr>chunk_id = ''uuid-1'', page_title = ''b'', chunk_title = ''Second doc'',
       chunk_content = ''Second doc'', vector = [10::nat]\<rparr>"
  let ?e = "\<lparr>chunk_id = ''uuid-0'', page_title = ''t'',
       chunk_title = replicate 200 CHR ''x'' @ ''...'',
       chunk_content = replicate 201 CHR ''x'', vector = [201::nat]\<rparr>"
  have m: "(''./data/chunks//chunk_3_b.json'', ?d)
     \<in> set (staged (final_state (run_ingestion sample_env [''notes.txt'', ''a.csv'', ''b.csv''])))"
    by (simp add: sample_run)
  have n: "(''./data/chunks//chunk_1_t.json'', ?e)
     \<in> set (staged (final_state (run_ingestion sample_env [''t.csv''])))"
    by (simp only: sample_run_t list.set insertI1)
  have f: "first_sentence ''Second doc'' = ''Second doc''"
    by code_simp
  have g: "200 < length (first_sentence (replicate 201 CHR ''x''))"
    by code_simp
  from chunk_title_truncation [OF m, of "''Second doc''"]
       chunk_title_truncation [OF n, of "first_sentence (replicate 201 CHR ''x'')"] f g
  show ?thesis using m n by simp
qed

section \<open>The staging file name\<close>

lemma chunk_file_name_filter:
  "chunk_file_name k title =
     filter (\<lambda>c. c \<notin> {CHR ''?'', CHR '':'', CHR 0x27, CHR ''|'', CHR ''/'', CHR 0x5C})
       (''chunk_'' @ str_nat k @ ''_'' @ title @ ''.json'')"
  unfolding chunk_file_name_def replace_single filter_filter
  by (rule filter_cong) auto

lemma after_accept_fields:
  "chunk_index (after_accept env title chunk v st) = chunk_index st + 1"
  "uuids_drawn (after_accept env title chunk v st) = uuids_drawn st + 1"
  "staged (after_accept env title chunk v st) = staged st @
     [(staging_path (chunk_index st + 1) title,
       \<lparr>chunk_id = uuid4 env (uuids_drawn st), page_title = title,
        chunk_title = derive_chunk_title (clean_markdown_content (strip chunk)),
        chunk_content = clean_markdown_content (strip chunk), vector = v\<rparr>)]"
  "embed_requests (after_accept env title chunk v st)
     = embed_requests st @ [clean_markdown_content (strip chunk)]"
  by (simp_all add: after_accept_def)

lemma process_chunks_keeps_staged:
  "set (staged st) \<subseteq> set (staged (exit_state (process_chunks env title ps st)))"
proof (induction ps arbitrary: st)
  case Nil
  then show ?case by simp
next
  case (Cons p ps)
  show ?case
  proof (cases rule: process_chunks_cases [of p env title ps st])
    case (accept v)
    have "set (staged st) \<subseteq> set (staged (after_accept env title p v st))"
      by (auto simp: after_accept_fields)
    also have "\<dots> \<subseteq> set (staged (exit_state (process_chunks env title ps
                              (after_accept env title p v st))))"
      by (rule Cons.IH)
    finally show ?thesis using accept(4) by simp
  qed simp_all
qed

lemma process_chunks_indexed:
  assumes "list_all (\<lambda>(f, d). \<exists>k. 1 \<le> k \<and> k \<le> chunk_index st \<and>
              f = staging_path k (page_title d)) (staged st)"
  shows "list_all (\<lambda>(f, d). \<exists>k. 1 \<le> k \<and>
              k \<le> chunk_index (exit_state (process_chunks env title ps st)) \<and>
              f = staging_path k (page_title d))
           (staged (exit_state (process_chunks env title ps st)))"
  using assms
proof (induction ps arbitrary: st)
  case Nil
  then show ?case by simp
next
  case (Cons p ps)
  have up: "list_all (\<lambda>(f, d). \<exists>k. 1 \<le> k \<and> k \<le> chunk_index st + 1 \<and>
              f = staging_path k (page_title d)) (staged st)"
    using Cons.prems by (fastforce simp: list_all_iff)
  show ?case
  proof (cases rule: process_chunks_cases [of p env title ps st])
    case overflow
    then show ?thesis using up by simp
  next
    case embed_fails
    then show ?thesis using up by simp
  next
    case write_fails
    then show ?thesis using up by simp
  next
    case (accept v)
    have "list_all (\<lambda>(f, d). \<exists>k. 1 \<le> k \<and> k \<le> chunk_index (after_accept env title p v st) \<and>
              f = staging_path k (page_title d)) (staged (after_accept env title p v st))"
      using up by (auto simp: after_accept_fields)
    then have "list_all (\<lambda>(f, d). \<exists>k. 1 \<le> k \<and>
              k \<le> chunk_index (exit_state (process_chunks env title ps
                                   (after_accept env title p v st))) \<and>
              f = staging_path k (page_title d))
           (staged (exit_state (process_chunks env title ps (after_accept env title p v st))))"
      by (rule Cons.IH)
    then show ?thesis using accept(4) by simp
  qed
qed

lemma ingest_indexed:
  assumes "list_all (\<lambda>(f, d). \<exists>k. 1 \<le> k \<and> k \<le> chunk_index st \<and>
              f = staging_path k (page_title d)) (staged st)"
  shows "list_all (\<lambda>(f, d). \<exists>k. 1 \<le> k \<and>
              k \<le> chunk_index (final_state (ingest env listing st)) \<and>
              f = staging_path k (page_title d))
           (staged (final_state (ingest env listing st)))"
  using assms
proof (induction listing arbitrary: st)
  case Nil
  then show ?case by simp
next
  case (Cons name rest)
  have d: "list_all (\<lambda>(f, d). \<exists>k. 1 \<le> k \<and>
              k \<le> chunk_index (final_state (process_document env name st)) \<and>
              f = staging_path k (page_title d))
           (staged (final_state (process_document env name st)))"
  proof (cases "extract_text_from_file env (input_directory @ name)")
    case (Inl e)
    then show ?thesis using Cons.prems by (simp add: process_document_def)
  next
    case (Inr r)
    show ?thesis
    proof (cases r)
      case None
      then show ?thesis using Inr Cons.prems by (simp add: process_document_def)
    next
      case (Some ps)
      show ?thesis
        using process_chunks_indexed [OF Cons.prems, of env "splitext_root name" ps] Inr Some
          Cons.prems
        by (cases "process_chunks env (splitext_root name) ps st")
           (simp_all add: process_document_def)
    qed
  qed
  show ?case
  proof (cases "process_document env name st")
    case (Raised e st')
    then show ?thesis using d by simp
  next
    case (Finished st')
    then show ?thesis using d Cons.IH [of st'] by simp
  qed
qed

text \<open>
  The chunk at position \<open>j\<close> of a document is written when it and every chunk before
  it are accepted. The counter is incremented once per chunk, first thing in the
  iteration, so that chunk is handled at counter value \<open>chunk_index st + j + 1\<close>, for
  \<open>st\<close> the state in which the loop over the document starts.
\<close>

lemma process_chunks_names_accepted:
  assumes "j < length ps"
    and "\<forall>m\<le>j. accepted env (chunk_index st + m + 1) title (ps ! m)"
  shows "chunk_index (exit_state (process_chunks env title (take (Suc j) ps) st))
           = chunk_index st + j + 1 \<and>
         (\<exists>v. get_embeddings_vector env (clean_markdown_content (strip (ps ! j))) = Some v \<and>
            (staging_path (chunk_index st + j + 1) title,
             \<lparr>chunk_id = uuid4 env (uuids_drawn st + j), page_title = title,
              chunk_title = derive_chunk_title (clean_markdown_content (strip (ps ! j))),
              chunk_content = clean_markdown_content (strip (ps ! j)), vector = v\<rparr>)
              \<in> set (staged (exit_state (process_chunks env title ps st))))"
  using assms
proof (induction ps arbitrary: j st)
  case Nil
  then show ?case by simp
next
  case (Cons p ps)
  from Cons.prems(2) have "accepted env (chunk_index st + 0 + 1) title ((p # ps) ! 0)"
    by blast
  then have acc: "\<not> chunk_overflows p" "embeds env p"
    "writable env (staging_path (chunk_index st + 1) title)"
    by (simp_all add: accepted_def)
  then obtain v where v: "get_embeddings_vector env (clean_markdown_content (strip p)) = Some v"
    by (auto simp: embeds_def)
  let ?st' = "after_accept env title p v st"
  have step: "process_chunks env title (p # qs) st = process_chunks env title qs ?st'" for qs
    using acc(1) v acc(3) by (rule process_chunks_accept)
  show ?case
  proof (cases j)
    case 0
    have "(staging_path (chunk_index st + 1) title,
             \<lparr>chunk_id = uuid4 env (uuids_drawn st), page_title = title,
              chunk_title = derive_chunk_title (clean_markdown_content (strip p)),
              chunk_content = clean_markdown_content (strip p), vector = v\<rparr>)
            \<in> set (staged ?st')"
      by (simp add: after_accept_fields)
    then have "(staging_path (chunk_index st + 1) title,
             \<lparr>chunk_id = uuid4 env (uuids_drawn st), page_title = title,
              chunk_title = derive_chunk_title (clean_markdown_content (strip p)),
              chunk_content = clean_markdown_content (strip p), vector = v\<rparr>)
            \<in> set (staged (exit_state (process_chunks env title ps ?st')))"
      using process_chunks_keeps_staged [of ?st' env title ps] by blast
    then show ?thesis
      using 0 v step by (simp add: after_accept_fields del: process_chunks.simps(2))
  next
    case (Suc i)
    have "i < length ps" using Cons.prems(1) Suc by simp
    moreover have "\<forall>m\<le>i. accepted env (chunk_index ?st' + m + 1) title (ps ! m)"
    proof (intro allI impI)
      fix m assume "m \<le> i"
      then have "accepted env (chunk_index st + Suc m + 1) title ((p # ps) ! Suc m)"
        using Cons.prems(2) Suc by (meson Suc_le_mono)
      then show "accepted env (chunk_index ?st' + m + 1) title (ps ! m)"
        by (simp add: after_accept_fields)
    qed
    ultimately have ih:
      "chunk_index (exit_state (process_chunks env title (take (Suc i) ps) ?st'))
           = chunk_index ?st' + i + 1 \<and>
         (\<exists>v. get_embeddings_vector env (clean_markdown_content (strip (ps ! i))) = Some v \<and>
            (staging_path (chunk_index ?st' + i + 1) title,
             \<lparr>chunk_id = uuid4 env (uuids_drawn ?st' + i), page_title = title,
              chunk_title = derive_chunk_title (clean_markdown_content (strip (ps ! i))),
              chunk_content = clean_markdown_content (strip (ps ! i)), vector = v\<rparr>)
              \<in> set (staged (exit_state (process_chunks env title ps ?st'))))"
      by (rule Cons.IH)
    then show ?thesis
      using Suc step by (simp add: after_accept_fields del: process_chunks.simps(2))
  qed
qed

text \<open>
  Claim C9. The chunk at position \<open>j\<close> of a document, accepted with every chunk before
  it, is handled at counter value \<open>chunk_index st + j + 1\<close> and its data is written at
  \<open>output_directory/name\<close>, where the name is built from that counter value and the
  page title. Every chunk file of a run is at such a path, for a value that the
  counter took during the run and the page title in the file. The name is
  \<open>chunk_{chunk_index}_{page_title}.json\<close> with every occurrence of the six characters
  question mark, colon, apostrophe, vertical bar, slash and backslash removed; so
  none of the six occurs in the name.
\<close>

theorem staging_file_name_sanitized:
  "(j < length ps \<and> (\<forall>m\<le>j. accepted env (chunk_index st + m + 1) title (ps ! m)) \<longrightarrow>
      chunk_index (exit_state (process_chunks env title (take (Suc j) ps) st))
        = chunk_index st + j + 1 \<and>
      (\<exists>v. get_embeddings_vector env (clean_markdown_content (strip (ps ! j))) = Some v \<and>
         (staging_path (chunk_index st + j + 1) title,
          \<lparr>chunk_id = uuid4 env (uuids_drawn st + j), page_title = title,
           chunk_title = derive_chunk_title (clean_markdown_content (strip (ps ! j))),
           chunk_content = clean_markdown_content (strip (ps ! j)), vector = v\<rparr>)
           \<in> set (staged (exit_state (process_chunks env title ps st))))) \<and>
   ((path, d) \<in> set (staged (final_state (run_ingestion env listing))) \<longrightarrow>
      (\<exists>k. 1 \<le> k \<and> k \<le> chunk_index (final_state (run_ingestion env listing)) \<and>
           path = staging_path k (page_title d))) \<and>
   staging_path k title = output_directory @ ''/'' @ chunk_file_name k title \<and>
   chunk_file_name k title =
     filter (\<lambda>c. c \<notin> {CHR ''?'', CHR '':'', CHR 0x27, CHR ''|'', CHR ''/'', CHR 0x5C})
       (''chunk_'' @ str_nat k @ ''_'' @ title @ ''.json'') \<and>
   set (chunk_file_name k title)
     \<inter> {CHR ''?'', CHR '':'', CHR 0x27, CHR ''|'', CHR ''/'', CHR 0x5C} = {}"
proof (intro conjI impI)
  assume "j < length ps \<and> (\<forall>m\<le>j. accepted env (chunk_index st + m + 1) title (ps ! m))"
  then have pos: "chunk_index (exit_state (process_chunks env title (take (Suc j) ps) st))
        = chunk_index st + j + 1 \<and>
      (\<exists>v. get_embeddings_vector env (clean_markdown_content (strip (ps ! j))) = Some v \<and>
         (staging_path (chunk_index st + j + 1) title,
          \<lparr>chunk_id = uuid4 env (uuids_drawn st + j), page_title = title,
           chunk_title = derive_chunk_title (clean_markdown_content (strip (ps ! j))),
           chunk_content = clean_markdown_content (strip (ps ! j)), vector = v\<rparr>)
           \<in> set (staged (exit_state (process_chunks env title ps st))))"
    using process_chunks_names_accepted [of j ps env st title] by blast
  from pos show "chunk_index (exit_state (process_chunks env title (take (Suc j) ps) st))
        = chunk_index st + j + 1" by (rule conjunct1)
  from pos show "\<exists>v. get_embeddings_vector env (clean_markdown_content (strip (ps ! j))) = Some v \<and>
         (staging_path (chunk_index st + j + 1) title,
          \<lparr>chunk_id = uuid4 env (uuids_drawn st + j), page_title = title,
           chunk_title = derive_chunk_title (clean_markdown_content (strip (ps ! j))),
           chunk_content = clean_markdown_content (strip (ps ! j)), vector = v\<rparr>)
           \<in> set (staged (exit_state (process_chunks env title ps st)))" by (rule conjunct2)
next
  assume m: "(path, d) \<in> set (staged (final_state (run_ingestion env listing)))"
  have "list_all (\<lambda>(f, d). \<exists>k. 1 \<le> k \<and>
              k \<le> chunk_index (final_state (ingest env listing initial_state)) \<and>
              f = staging_path k (page_title d))
           (staged (final_state (ingest env listing initial_state)))"
    by (rule ingest_indexed) (simp add: initial_state_def)
  then show "\<exists>k. 1 \<le> k \<and> k \<le> chunk_index (final_state (run_ingestion env listing)) \<and>
           path = staging_path k (page_title d)"
    using m by (auto simp: run_ingestion_def list_all_iff)
next
  show "staging_path k title = output_directory @ ''/'' @ chunk_file_name k title"
    by (simp add: staging_path_def)
  show "chunk_file_name k title =
     filter (\<lambda>c. c \<notin> {CHR ''?'', CHR '':'', CHR 0x27, CHR ''|'', CHR ''/'', CHR 0x5C})
       (''chunk_'' @ str_nat k @ ''_'' @ title @ ''.json'')"
    by (rule chunk_file_name_filter)
  show "set (chunk_file_name k title)
     \<inter> {CHR ''?'', CHR '':'', CHR 0x27, CHR ''|'', CHR ''/'', CHR 0x5C} = {}"
    by (subst chunk_file_name_filter) auto
qed

theorem staging_file_name_sanitized_witness:
  "(1::nat) < length [''Intro.'', ''Tail''] \<and>
   accepted sample_env (chunk_index (initial_state :: nat list state) + 0 + 1) ''x''
     ([''Intro.'', ''Tail''] ! 0) \<and>
   accepted sample_env (chunk_index (initial_state :: nat list state) + 1 + 1) ''x''
     ([''Intro.'', ''Tail''] ! 1) \<and>
   chunk_index (exit_state (process_chunks sample_env ''x'' (take (Suc 1) [''Intro.'', ''Tail''])
      initial_state)) = 2 \<and>
   (''./data/chunks//chunk_2_x.json'',
      \<lparr>chunk_id = ''uuid-1'', page_title = ''x'', chunk_title = ''Tail'',
       chunk_content = ''Tail'', vector = [4]\<rparr>)
     \<in> set (staged (exit_state (process_chunks sample_env ''x'' [''Intro.'', ''Tail'']
           initial_state))) \<and>
   (''./data/chunks//chunk_3_b.json'',
      \<lparr>chunk_id = ''uuid-1'', page_title = ''b'', chunk_title = ''Second doc'',
       chunk_content = ''Second doc'', vector = [10]\<rparr>)
     \<in> set (staged (final_state (run_ingestion sample_env [''notes.txt'', ''a.csv'', ''b.csv'']))) \<and>
   (\<exists>k. 1 \<le> k \<and> k \<le> 3 \<and>
        ''./data/chunks//chunk_3_b.json'' = output_directory @ ''/'' @ chunk_file_name k ''b'') \<and>
   chunk_file_name 7 (''What'' @ [CHR 0x27] @ ''s/new?'') = ''chunk_7_Whatsnew.json''"
proof -
  note t = staging_file_name_sanitized
  let ?ps = "[''Intro.'', ''Tail'']"
  have names: "chunk_file_name (Suc 0) ''x'' = ''chunk_1_x.json''"
    "chunk_file_name 2 ''x'' = ''chunk_2_x.json''" "str_nat 7 = ''7''"
    "chunk_file_name (Suc (Suc 0)) ''x'' = ''chunk_2_x.json''"
    by code_simp+
  have vals: "clean_markdown_content (strip ''Tail'') = ''Tail''"
    "derive_chunk_title ''Tail'' = ''Tail''" "uuid4 sample_env 1 = ''uuid-1''"
    "get_embeddings_vector sample_env ''Tail'' = Some [4]"
    by (code_simp, code_simp, code_simp, simp add: sample_env_def)
  have acc0: "accepted sample_env (Suc 0) ''x'' ''Intro.''"
    by (simp add: accepted_def chunk_overflows_def embeds_def sample_contents sample_tokens
        sample_embeddings MAX_INPUT_TOKENS_def sample_writable staging_path_def names
        output_directory_def)
  have acc1: "accepted sample_env 2 ''x'' ''Tail''"
    by (simp add: accepted_def chunk_overflows_def embeds_def sample_contents sample_tokens
        vals MAX_INPUT_TOKENS_def sample_writable staging_path_def names
        output_directory_def)
  have acc: "\<forall>m\<le>1. accepted sample_env (chunk_index (initial_state :: nat list state) + m + 1)
               ''x'' (?ps ! m)"
  proof (intro allI impI)
    fix m :: nat assume "m \<le> 1"
    then have "m = 0 \<or> m = 1" by auto
    then show "accepted sample_env (chunk_index (initial_state :: nat list state) + m + 1)
               ''x'' (?ps ! m)"
      using acc0 acc1 by (auto simp: initial_state_def numeral_2_eq_2)
  qed
  have len: "(1::nat) < length ?ps" by simp
  have pos: "chunk_index (exit_state (process_chunks sample_env ''x'' (take (Suc 1) ?ps)
        initial_state)) = chunk_index (initial_state :: nat list state) + 1 + 1 \<and>
      (\<exists>v. get_embeddings_vector sample_env (clean_markdown_content (strip (?ps ! 1))) = Some v \<and>
         (staging_path (chunk_index (initial_state :: nat list state) + 1 + 1) ''x'',
          \<lparr>chunk_id = uuid4 sample_env (uuids_drawn (initial_state :: nat list state) + 1),
           page_title = ''x'',
           chunk_title = derive_chunk_title (clean_markdown_content (strip (?ps ! 1))),
           chunk_content = clean_markdown_content (strip (?ps ! 1)), vector = v\<rparr>)
           \<in> set (staged (exit_state (process_chunks sample_env ''x'' ?ps initial_state))))"
    using t [where j = 1 and ps = ?ps and env = sample_env and st = initial_state
               and title = "''x''", THEN conjunct1] len acc by blast
  have 1: "chunk_index (exit_state (process_chunks sample_env ''x'' (take (Suc 1) ?ps)
      initial_state)) = 2"
    using pos by (simp add: initial_state_def del: process_chunks.simps)
  have 2: "(''./data/chunks//chunk_2_x.json'',
      \<lparr>chunk_id = ''uuid-1'', page_title = ''x'', chunk_title = ''Tail'',
       chunk_content = ''Tail'', vector = [4]\<rparr>)
     \<in> set (staged (exit_state (process_chunks sample_env ''x'' ?ps initial_state)))"
    using pos
    by (simp add: initial_state_def vals sample_uuids staging_path_def names
        output_directory_def del: process_chunks.simps)
  let ?d = "\<lparr>chunk_id = ''uuid-1'', page_title = ''b'', chunk_title = ''Second doc'',
       chunk_content = ''Second doc'', vector = [10::nat]\<rparr>"
  have m: "(''./data/chunks//chunk_3_b.json'', ?d)
     \<in> set (staged (final_state (run_ingestion sample_env [''notes.txt'', ''a.csv'', ''b.csv''])))"
    by (simp add: sample_run)
  have c: "chunk_index (final_state (run_ingestion sample_env [''notes.txt'', ''a.csv'', ''b.csv''])) = 3"
    by (simp add: sample_run)
  have 3: "\<exists>k. 1 \<le> k \<and> k \<le> 3 \<and>
        ''./data/chunks//chunk_3_b.json'' = output_directory @ ''/'' @ chunk_file_name k ''b''"
    using t [where path = "''./data/chunks//chunk_3_b.json''" and d = ?d and env = sample_env
               and listing = "[''notes.txt'', ''a.csv'', ''b.csv'']",
             THEN conjunct2, THEN conjunct1] m
    unfolding c by (auto simp: staging_path_def)
  have 4: "chunk_file_name 7 (''What'' @ [CHR 0x27] @ ''s/new?'') = ''chunk_7_Whatsnew.json''"
    using t [where k = 7 and title = "''What'' @ [CHR 0x27] @ ''s/new?''",
             THEN conjunct2, THEN conjunct2, THEN conjunct2, THEN conjunct1]
    by (simp add: names)
  have a0: "accepted sample_env (chunk_index (initial_state :: nat list state) + 0 + 1) ''x''
     ([''Intro.'', ''Tail''] ! 0)"
    using acc0 by (simp add: initial_state_def)
  have a1: "accepted sample_env (chunk_index (initial_state :: nat list state) + 1 + 1) ''x''
     ([''Intro.'', ''Tail''] ! 1)"
    using acc1 by (simp add: initial_state_def numeral_2_eq_2)
  show ?thesis
    using len a0 a1 1 2 m 3 4 by (intro conjI)
qed

section \<open>The chunk title is taken from the normalized content\<close>

lemma split_acc_sentence_absent:
  "newline \<notin> set s \<Longrightarrow> split_acc (''.'' @ [newline]) acc s = [rev acc @ s]"
proof (induction s arbitrary: acc)
  case Nil
  then show ?case by simp
next
  case (Cons c cs)
  have "take (Suc 0) cs \<noteq> [newline]"
    using Cons.prems by (cases cs) auto
  then show ?case
    using Cons by simp
qed

lemma first_sentence_of_clean:
  "first_sentence (clean_markdown_content x) = strip (clean_markdown_content x)"
  using split_acc_sentence_absent [OF newline_not_in_clean, of "[]" x]
  by (simp add: first_sentence_def split_def)

text \<open>
  Claim C4 says the title is the part of the chunk before the first period followed
  by a newline, taken from the content before normalization. The code splits
  \<open>chunk_content\<close>, which is already normalized and so holds no newline: the split at
  \<open>.\<newline>\<close> never finds its separator and the title is the whole normalized content,
  stripped, then limited to 200 characters. The code's comments on these lines read
  "Extract the chunk title using the first sentence" and "The first line is the title
  of the chunk". For the chunk \<open>Title.\<newline>Body\<close> the title written is
  \<open>Title.Body\<close>; the part before the first period-newline is \<open>Title\<close>.
\<close>

theorem chunk_title_from_normalized_content:
  "first_sentence (clean_markdown_content x) = strip (clean_markdown_content x) \<and>
   map (chunk_title \<circ> snd)
     (staged (exit_state (process_chunks sample_env ''doc''
        [''Title.'' @ [newline] @ ''Body''] initial_state))) = [''Title.Body''] \<and>
   hd (split (''.'' @ [newline]) (''Title.'' @ [newline] @ ''Body'')) = ''Title''"
proof (intro conjI)
  show "first_sentence (clean_markdown_content x) = strip (clean_markdown_content x)"
    by (rule first_sentence_of_clean)
  show "map (chunk_title \<circ> snd)
     (staged (exit_state (process_chunks sample_env ''doc''
        [''Title.'' @ [newline] @ ''Body''] initial_state))) = [''Title.Body'']"
    by code_simp
  show "hd (split (''.'' @ [newline]) (''Title.'' @ [newline] @ ''Body'')) = ''Title''"
    by code_simp
qed

section \<open>The outcomes of text extraction\<close>

lemma supported_iff:
  "endswith_any p suported_file_types \<longleftrightarrow>
     endswith p ''.pdf'' \<or> endswith p ''.docx'' \<or> endswith p ''.csv'' \<or> endswith p ''.xlsx''"
  by (simp add: endswith_any_def suported_file_types_def)

lemma read_content_unsupported:
  "\<not> endswith_any p suported_file_types \<Longrightarrow> read_content env p = Inl (ValueError p)"
  by (simp add: supported_iff read_content_def)

lemma read_content_supported:
  "endswith_any p suported_file_types \<Longrightarrow>
   read_content env p = Inl ParserError \<or> (\<exists>content. read_content env p = Inr content)"
  by (auto simp: supported_iff read_content_def split: option.splits)

text \<open>
  Claim C7 says that every existing path with a supported suffix yields a sequence of
  strings. The last line of the function returns \<open>None\<close> instead when the extracted
  text is empty, as for a CSV file without rows.
\<close>

theorem extract_empty_text_is_None:
  "path_exists sample_env (input_directory @ ''empty.csv'') \<and>
   endswith (input_directory @ ''empty.csv'') ''.csv'' \<and>
   extract_text_from_file sample_env (input_directory @ ''empty.csv'') = Inr None"
  by (simp add: sample_extracts) (simp add: sample_env_def input_directory_def endswith_def)

text \<open>
  Claim C7, amended. \<open>FileNotFoundError\<close> is raised exactly when the path does not
  exist, \<open>ValueError\<close> exactly when it exists and ends in none of the four suffixes.
  For an existing path with a supported suffix, either the format library raises, or
  the extracted text is empty and the result is \<open>None\<close>, or the result is the list of
  the pieces of the text between double newlines.
\<close>

theorem extract_text_from_file_outcomes:
  "(extract_text_from_file env p = Inl (FileNotFoundError p) \<longleftrightarrow> \<not> path_exists env p) \<and>
   (extract_text_from_file env p = Inl (ValueError p) \<longleftrightarrow>
      path_exists env p \<and> \<not> endswith_any p suported_file_types) \<and>
   (path_exists env p \<and> endswith_any p suported_file_types \<longrightarrow>
      (read_content env p = Inl ParserError \<and> extract_text_from_file env p = Inl ParserError) \<or>
      (read_content env p = Inr [] \<and> extract_text_from_file env p = Inr None) \<or>
      (\<exists>content. content \<noteq> [] \<and> read_content env p = Inr content \<and>
         extract_text_from_file env p = Inr (Some (split [newline, newline] content))))"
proof (intro conjI impI)
  show "extract_text_from_file env p = Inl (FileNotFoundError p) \<longleftrightarrow> \<not> path_exists env p"
    using read_content_unsupported [of p env] read_content_supported [of p env]
    by (cases "endswith_any p suported_file_types")
       (auto simp: extract_text_from_file_def split: sum.splits)
  show "extract_text_from_file env p = Inl (ValueError p) \<longleftrightarrow>
      path_exists env p \<and> \<not> endswith_any p suported_file_types"
    using read_content_unsupported [of p env] read_content_supported [of p env]
    by (cases "endswith_any p suported_file_types")
       (auto simp: extract_text_from_file_def split: sum.splits)
next
  assume a: "path_exists env p \<and> endswith_any p suported_file_types"
  then consider "read_content env p = Inl ParserError"
    | content where "read_content env p = Inr content"
    using read_content_supported [of p env] by blast
  then show "(read_content env p = Inl ParserError \<and> extract_text_from_file env p = Inl ParserError) \<or>
      (read_content env p = Inr [] \<and> extract_text_from_file env p = Inr None) \<or>
      (\<exists>content. content \<noteq> [] \<and> read_content env p = Inr content \<and>
         extract_text_from_file env p = Inr (Some (split [newline, newline] content)))"
  proof cases
    case 1
    then show ?thesis using a by (simp add: extract_text_from_file_def)
  next
    case 2
    then show ?thesis using a by (cases "content = []") (simp_all add: extract_text_from_file_def)
  qed
qed

theorem extract_text_from_file_outcomes_witness:
  "\<not> path_exists sample_env ''missing.pdf'' \<and>
   extract_text_from_file sample_env ''missing.pdf'' = Inl (FileNotFoundError ''missing.pdf'') \<and>
   path_exists sample_env (input_directory @ ''notes.txt'') \<and>
   \<not> endswith_any (input_directory @ ''notes.txt'') suported_file_types \<and>
   extract_text_from_file sample_env (input_directory @ ''notes.txt'')
     = Inl (ValueError (input_directory @ ''notes.txt'')) \<and>
   path_exists sample_env (input_directory @ ''a.csv'') \<and>
   endswith_any (input_directory @ ''a.csv'') suported_file_types \<and>
   extract_text_from_file sample_env (input_directory @ ''a.csv'')
     = Inr (Some [''Intro.'', long_chunk, ''Tail''])"
proof -
  have e: "\<not> path_exists sample_env ''missing.pdf''"
    "path_exists sample_env (input_directory @ ''notes.txt'')"
    "path_exists sample_env (input_directory @ ''a.csv'')"
    by (simp_all add: sample_env_def input_directory_def)
  have s: "\<not> endswith_any (input_directory @ ''notes.txt'') suported_file_types"
    "endswith_any (input_directory @ ''a.csv'') suported_file_types"
    by code_simp+
  from extract_text_from_file_outcomes [of sample_env "''missing.pdf''"]
       extract_text_from_file_outcomes [of sample_env "input_directory @ ''notes.txt''"]
       extract_text_from_file_outcomes [of sample_env "input_directory @ ''a.csv''"]
       e s sample_paragraphs
  show ?thesis by simp
qed

section \<open>The first overflow ends the document\<close>

lemma process_chunks_cut:
  "i < length ps \<Longrightarrow> chunk_overflows (ps ! i) \<Longrightarrow>
   process_chunks env title ps st = process_chunks env title (take (Suc i) ps) st"
proof (induction ps arbitrary: i st)
  case Nil
  then show ?case by simp
next
  case (Cons p ps)
  show ?case
  proof (cases i)
    case 0
    with Cons.prems show ?thesis
      by (simp add: process_chunks_overflow del: process_chunks.simps)
  next
    case (Suc j)
    with Cons.prems have "j < length ps" "chunk_overflows (ps ! j)" by simp_all
    then have ih: "process_chunks env title ps s = process_chunks env title (take (Suc j) ps) s"
      for s by (rule Cons.IH)
    show ?thesis
    proof (cases rule: process_chunks_cases [of p env title ps st])
      case overflow
      then show ?thesis
        using Suc by (simp add: process_chunks_overflow del: process_chunks.simps)
    next
      case embed_fails
      then show ?thesis
        using Suc by (simp add: process_chunks_embed_fails del: process_chunks.simps)
    next
      case write_fails
      then show ?thesis
        using Suc by (simp add: process_chunks_write_fails del: process_chunks.simps)
    next
      case (accept v)
      then show ?thesis
        using Suc ih by (simp add: process_chunks_accept del: process_chunks.simps)
    qed
  qed
qed

text \<open>
  While every chunk is accepted the loop goes on: after \<open>n\<close> accepted chunks the
  counter has advanced by \<open>n\<close> and \<open>n\<close> files have been written.
\<close>

lemma process_chunks_reaches:
  "n \<le> length ps \<Longrightarrow>
   \<forall>m<n. accepted env (chunk_index st + m + 1) title (ps ! m) \<Longrightarrow>
   \<exists>st'. process_chunks env title ps st = process_chunks env title (drop n ps) st' \<and>
         chunk_index st' = chunk_index st + n \<and>
         length (staged st') = length (staged st) + n \<and>
         length (embed_requests st') = length (embed_requests st) + n"
proof (induction ps arbitrary: n st)
  case Nil
  then show ?case by simp
next
  case (Cons p ps)
  show ?case
  proof (cases n)
    case 0
    then show ?thesis by (auto simp del: process_chunks.simps intro: exI [of _ st])
  next
    case (Suc k)
    from Cons.prems(2) Suc have "accepted env (chunk_index st + 0 + 1) title ((p # ps) ! 0)"
      by blast
    then have acc: "\<not> chunk_overflows p" "embeds env p"
      "writable env (staging_path (chunk_index st + 1) title)"
      by (simp_all add: accepted_def)
    then obtain v where v: "get_embeddings_vector env (clean_markdown_content (strip p)) = Some v"
      by (auto simp: embeds_def)
    let ?s = "after_accept env title p v st"
    have step: "process_chunks env title (p # ps) st = process_chunks env title ps ?s"
      using acc(1) v acc(3) by (rule process_chunks_accept)
    have "k \<le> length ps" using Cons.prems(1) Suc by simp
    moreover have "\<forall>m<k. accepted env (chunk_index ?s + m + 1) title (ps ! m)"
    proof (intro allI impI)
      fix m assume "m < k"
      then have "accepted env (chunk_index st + Suc m + 1) title ((p # ps) ! Suc m)"
        using Cons.prems(2) Suc by (meson Suc_less_eq)
      then show "accepted env (chunk_index ?s + m + 1) title (ps ! m)"
        by (simp add: after_accept_fields)
    qed
    ultimately obtain st' where st':
      "process_chunks env title ps ?s = process_chunks env title (drop k ps) st'"
      "chunk_index st' = chunk_index ?s + k"
      "length (staged st') = length (staged ?s) + k"
      "length (embed_requests st') = length (embed_requests ?s) + k"
      using Cons.IH [of k ?s] by blast
    have "process_chunks env title (p # ps) st = process_chunks env title (drop n (p # ps)) st' \<and>
         chunk_index st' = chunk_index st + n \<and>
         length (staged st') = length (staged st) + n \<and>
         length (embed_requests st') = length (embed_requests st) + n"
      using Suc step st' by (simp add: after_accept_fields del: process_chunks.simps)
    then show ?thesis by (rule exI)
  qed
qed

lemma process_chunks_breaks:
  "i < length ps \<Longrightarrow> chunk_overflows (ps ! i) \<Longrightarrow>
   \<forall>m<i. chunk_overflows (ps ! m) \<or> accepted env (chunk_index st + m + 1) title (ps ! m) \<Longrightarrow>
   \<exists>s. process_chunks env title ps st = Break s \<and>
       length (staged s) \<le> length (staged st) + i \<and>
       length (embed_requests s) \<le> length (embed_requests st) + i"
proof (induction ps arbitrary: i st)
  case Nil
  then show ?case by simp
next
  case (Cons p ps)
  show ?case
  proof (cases "chunk_overflows p")
    case True
    then show ?thesis by (simp add: process_chunks_overflow del: process_chunks.simps)
  next
    case False
    with Cons.prems obtain j where j: "i = Suc j"
      by (cases i) auto
    from Cons.prems(3) j False have "accepted env (chunk_index st + 0 + 1) title ((p # ps) ! 0)"
      by (metis nth_Cons_0 zero_less_Suc)
    then have acc: "embeds env p" "writable env (staging_path (chunk_index st + 1) title)"
      by (simp_all add: accepted_def)
    then obtain v where v: "get_embeddings_vector env (clean_markdown_content (strip p)) = Some v"
      by (auto simp: embeds_def)
    let ?s = "after_accept env title p v st"
    have step: "process_chunks env title (p # ps) st = process_chunks env title ps ?s"
      using False v acc(2) by (rule process_chunks_accept)
    have "j < length ps" "chunk_overflows (ps ! j)"
      using Cons.prems(1,2) j by simp_all
    moreover have "\<forall>m<j. chunk_overflows (ps ! m) \<or>
                         accepted env (chunk_index ?s + m + 1) title (ps ! m)"
    proof (intro allI impI)
      fix m assume "m < j"
      then have "chunk_overflows ((p # ps) ! Suc m) \<or>
                 accepted env (chunk_index st + Suc m + 1) title ((p # ps) ! Suc m)"
        using Cons.prems(3) j by (meson Suc_less_eq)
      then show "chunk_overflows (ps ! m) \<or>
                 accepted env (chunk_index ?s + m + 1) title (ps ! m)"
        by (simp add: after_accept_fields)
    qed
    ultimately obtain s where
      "process_chunks env title ps ?s = Break s"
      "length (staged s) \<le> length (staged ?s) + j"
      "length (embed_requests s) \<le> length (embed_requests ?s) + j"
      using Cons.IH [of j ?s] by blast
    then show ?thesis
      using j step by (simp add: after_accept_fields del: process_chunks.simps)
  qed
qed

lemma process_document_break:
  "endswith_any filename suported_file_types \<Longrightarrow>
   extract_text_from_file env (input_directory @ filename) = Inr (Some ps) \<Longrightarrow>
   process_chunks env (splitext_root filename) ps st = Break s \<Longrightarrow>
   process_document env filename st = Finished s"
  by (simp add: process_document_def)

text \<open>
  Claim C6 says that after an overflow at position \<open>i\<close> processing continues with the
  next document. That holds only if the loop reaches position \<open>i\<close>. In the sample
  directory \<open>d.csv\<close> holds a text the embedding service fails on and then the long
  chunk: the candidate at position 1 is over the limit, yet the run over \<open>d.csv\<close> and
  \<open>b.csv\<close> ends with the exception of position 0 and \<open>b.csv\<close> is never processed,
  although a run over \<open>b.csv\<close> alone writes its chunk.
\<close>

theorem overflow_document_can_end_the_run:
  "extract_text_from_file sample_env (input_directory @ ''d.csv'')
     = Inr (Some [''unavailable'', long_chunk]) \<and>
   chunk_overflows ([''unavailable'', long_chunk] ! 1) \<and>
   run_ingestion sample_env [''d.csv'', ''b.csv''] =
     Raised ServiceFailure
       \<lparr>chunk_index = 1, uuids_drawn = 0, embed_requests = [''unavailable''], staged = []\<rparr> \<and>
   run_ingestion sample_env [''b.csv''] =
     Finished
       \<lparr>chunk_index = 1, uuids_drawn = 1, embed_requests = [''Second doc''],
        staged = [(''./data/chunks//chunk_1_b.json'',
                   \<lparr>chunk_id = ''uuid-0'', page_title = ''b'', chunk_title = ''Second doc'',
                    chunk_content = ''Second doc'', vector = [10]\<rparr>)]\<rparr>"
proof (intro conjI)
  show "extract_text_from_file sample_env (input_directory @ ''d.csv'')
     = Inr (Some [''unavailable'', long_chunk])"
    by (rule sample_paragraphs_d)
  show "chunk_overflows ([''unavailable'', long_chunk] ! 1)"
    by (simp add: long_chunk_overflows)
  have "\<not> chunk_overflows ''unavailable''" "\<not> embeds sample_env ''unavailable''"
    by (simp_all add: chunk_overflows_def embeds_def sample_contents sample_tokens
        sample_embeddings MAX_INPUT_TOKENS_def)
  then have "process_chunks sample_env ''d'' [''unavailable'', long_chunk] initial_state =
     Raised_in_loop ServiceFailure
       \<lparr>chunk_index = 1, uuids_drawn = 0, embed_requests = [''unavailable''], staged = []\<rparr>"
    by (simp add: process_chunks_embed_fails initial_state_def sample_contents
        del: process_chunks.simps)
  then show "run_ingestion sample_env [''d.csv'', ''b.csv''] =
     Raised ServiceFailure
       \<lparr>chunk_index = 1, uuids_drawn = 0, embed_requests = [''unavailable''], staged = []\<rparr>"
    by (simp add: run_ingestion_def process_document_def sample_supported sample_titles
        sample_paragraphs_d del: process_chunks.simps)
  show "run_ingestion sample_env [''b.csv''] =
     Finished
       \<lparr>chunk_index = 1, uuids_drawn = 1, embed_requests = [''Second doc''],
        staged = [(''./data/chunks//chunk_1_b.json'',
                   \<lparr>chunk_id = ''uuid-0'', page_title = ''b'', chunk_title = ''Second doc'',
                    chunk_content = ''Second doc'', vector = [10]\<rparr>)]\<rparr>"
    by code_simp
qed

text \<open>
  Claim C6, amended. If the chunk at position \<open>i\<close> of a document is over the limit,
  the loop over the document does exactly what it does on the first \<open>i + 1\<close> chunks
  alone: nothing at a later position is embedded or written. If moreover every chunk
  before \<open>i\<close> is itself over the limit or is accepted (embedded and written without
  an exception), the loop leaves by \<open>break\<close>, having sent at most \<open>i\<close> texts to the
  embedding service and written at most \<open>i\<close> files, and the run goes on with the
  next name of the directory listing.
\<close>

theorem first_overflow_aborts_document:
  assumes "i < length ps" and "chunk_overflows (ps ! i)"
  shows "process_chunks env title ps st = process_chunks env title (take (Suc i) ps) st \<and>
         ((\<forall>m<i. chunk_overflows (ps ! m) \<or>
                  accepted env (chunk_index st + m + 1) title (ps ! m)) \<longrightarrow>
          (\<exists>s. process_chunks env title ps st = Break s \<and>
               length (staged s) \<le> length (staged st) + i \<and>
               length (embed_requests s) \<le> length (embed_requests st) + i \<and>
               (endswith_any filename suported_file_types \<and>
                extract_text_from_file env (input_directory @ filename) = Inr (Some ps) \<and>
                title = splitext_root filename \<longrightarrow>
                ingest env (filename # rest) st = ingest env rest s)))"
proof (intro conjI impI)
  show "process_chunks env title ps st = process_chunks env title (take (Suc i) ps) st"
    using assms by (rule process_chunks_cut)
next
  assume "\<forall>m<i. chunk_overflows (ps ! m) \<or>
                 accepted env (chunk_index st + m + 1) title (ps ! m)"
  with assms obtain s where s: "process_chunks env title ps st = Break s"
       "length (staged s) \<le> length (staged st) + i"
       "length (embed_requests s) \<le> length (embed_requests st) + i"
    using process_chunks_breaks [of i ps env st title] by blast
  have "ingest env (filename # rest) st = ingest env rest s"
    if "endswith_any filename suported_file_types \<and>
        extract_text_from_file env (input_directory @ filename) = Inr (Some ps) \<and>
        title = splitext_root filename"
    using that s(1) process_document_break [of filename env ps st s]
    by (simp del: process_chunks.simps)
  with s show "\<exists>s. process_chunks env title ps st = Break s \<and>
               length (staged s) \<le> length (staged st) + i \<and>
               length (embed_requests s) \<le> length (embed_requests st) + i \<and>
               (endswith_any filename suported_file_types \<and>
                extract_text_from_file env (input_directory @ filename) = Inr (Some ps) \<and>
                title = splitext_root filename \<longrightarrow>
                ingest env (filename # rest) st = ingest env rest s)"
    by blast
qed

theorem first_overflow_aborts_document_witness:
  "(1::nat) < length [''Intro.'', long_chunk, ''Tail''] \<and>
   chunk_overflows ([''Intro.'', long_chunk, ''Tail''] ! 1) \<and>
   accepted sample_env (chunk_index (initial_state :: nat list state) + 0 + 1) ''a''
     ([''Intro.'', long_chunk, ''Tail''] ! 0) \<and>
   endswith_any ''a.csv'' suported_file_types \<and>
   extract_text_from_file sample_env (input_directory @ ''a.csv'')
     = Inr (Some [''Intro.'', long_chunk, ''Tail'']) \<and>
   ''a'' = splitext_root ''a.csv'' \<and>
   process_chunks sample_env ''a'' [''Intro.'', long_chunk, ''Tail''] initial_state
     = process_chunks sample_env ''a'' (take (Suc 1) [''Intro.'', long_chunk, ''Tail'']) initial_state \<and>
   (\<exists>s. process_chunks sample_env ''a'' [''Intro.'', long_chunk, ''Tail''] initial_state = Break s \<and>
        length (staged s) \<le> length (staged (initial_state :: nat list state)) + 1 \<and>
        ingest sample_env [''a.csv'', ''b.csv''] initial_state = ingest sample_env [''b.csv''] s)"
proof -
  let ?ps = "[''Intro.'', long_chunk, ''Tail'']"
  have h: "(1::nat) < length ?ps" "chunk_overflows (?ps ! 1)"
    by (simp_all add: long_chunk_overflows)
  have acc0: "accepted sample_env (chunk_index (initial_state :: nat list state) + 0 + 1) ''a''
     (?ps ! 0)"
    by (simp add: initial_state_def accepted_def chunk_overflows_def embeds_def sample_contents
        sample_tokens sample_embeddings MAX_INPUT_TOKENS_def sample_writable staging_path_def
        sample_file_names output_directory_def)
  have e: "\<forall>m<1. chunk_overflows (?ps ! m) \<or>
       accepted sample_env (chunk_index (initial_state :: nat list state) + m + 1) ''a'' (?ps ! m)"
    using acc0 by simp
  have f: "endswith_any ''a.csv'' suported_file_types" "''a'' = splitext_root ''a.csv''"
    by (simp_all add: sample_supported sample_titles)
  note t = first_overflow_aborts_document
    [OF h, of sample_env "''a''" initial_state "''a.csv''" "[''b.csv'']"]
  have cut: "process_chunks sample_env ''a'' ?ps initial_state
     = process_chunks sample_env ''a'' (take (Suc 1) ?ps) initial_state"
    using t by (rule conjunct1)
  from t [THEN conjunct2] e f sample_paragraphs
  have go: "\<exists>s. process_chunks sample_env ''a'' ?ps initial_state = Break s \<and>
        length (staged s) \<le> length (staged (initial_state :: nat list state)) + 1 \<and>
        ingest sample_env [''a.csv'', ''b.csv''] initial_state = ingest sample_env [''b.csv''] s"
    by blast
  show ?thesis
    using h acc0 f sample_paragraphs cut go by (intro conjI)
qed

section \<open>What ends a run and what does not\<close>

lemma ingest_append:
  "ingest env (pre @ post) st =
     (case ingest env pre st of Finished s \<Rightarrow> ingest env post s | Raised e s \<Rightarrow> Raised e s)"
  by (induction pre arbitrary: st) (auto split: outcome.splits)

lemma process_document_unsupported:
  "\<not> endswith_any f suported_file_types \<Longrightarrow> process_document env f st = Finished st"
  by (simp add: process_document_def)

lemma process_chunks_at:
  assumes "i < length ps"
    and "\<forall>m<i. accepted env (chunk_index st + m + 1) title (ps ! m)"
  obtains st' where
    "process_chunks env title ps st = process_chunks env title (ps ! i # drop (Suc i) ps) st'"
    "chunk_index st' = chunk_index st + i"
    "length (staged st') = length (staged st) + i"
proof -
  from assms obtain st' where
    "process_chunks env title ps st = process_chunks env title (drop i ps) st'"
    "chunk_index st' = chunk_index st + i"
    "length (staged st') = length (staged st) + i"
    using process_chunks_reaches [of i ps env st title] by auto
  then show ?thesis
    using that assms(1) by (simp add: Cons_nth_drop_Suc del: process_chunks.simps)
qed

lemma process_chunks_embed_raises:
  assumes "i < length ps"
    and "\<forall>m<i. accepted env (chunk_index st + m + 1) title (ps ! m)"
    and "\<not> chunk_overflows (ps ! i)" and "\<not> embeds env (ps ! i)"
  shows "\<exists>s. process_chunks env title ps st = Raised_in_loop ServiceFailure s \<and>
             length (staged s) = length (staged st) + i"
proof -
  from assms(1,2) obtain st' where st':
    "process_chunks env title ps st = process_chunks env title (ps ! i # drop (Suc i) ps) st'"
    "length (staged st') = length (staged st) + i"
    by (rule process_chunks_at)
  show ?thesis
    unfolding st'(1) process_chunks_embed_fails [OF assms(3,4)]
    using st'(2) by simp
qed

lemma process_chunks_write_raises:
  assumes "i < length ps"
    and "\<forall>m<i. accepted env (chunk_index st + m + 1) title (ps ! m)"
    and "\<not> chunk_overflows (ps ! i)" and "embeds env (ps ! i)"
    and "\<not> writable env (staging_path (chunk_index st + i + 1) title)"
  shows "\<exists>s. process_chunks env title ps st = Raised_in_loop OSError s \<and>
             length (staged s) = length (staged st) + i"
proof -
  from assms(1,2) obtain st' where st':
    "process_chunks env title ps st = process_chunks env title (ps ! i # drop (Suc i) ps) st'"
    "chunk_index st' = chunk_index st + i"
    "length (staged st') = length (staged st) + i"
    by (rule process_chunks_at)
  have "\<not> writable env (staging_path (chunk_index st' + 1) title)"
    using assms(5) st'(2) by simp
  from process_chunks_write_fails [OF assms(3,4) this] show ?thesis
    unfolding st'(1) using st'(3) by simp
qed

lemma process_chunks_overflow_breaks:
  assumes "i < length ps"
    and "\<forall>m<i. accepted env (chunk_index st + m + 1) title (ps ! m)"
    and "chunk_overflows (ps ! i)"
  shows "\<exists>s. process_chunks env title ps st = Break s \<and>
             length (staged s) = length (staged st) + i"
proof -
  from assms(1,2) obtain st' where st':
    "process_chunks env title ps st = process_chunks env title (ps ! i # drop (Suc i) ps) st'"
    "length (staged st') = length (staged st) + i"
    by (rule process_chunks_at)
  show ?thesis
    unfolding st'(1) process_chunks_overflow [OF assms(3)]
    using st'(2) by simp
qed

lemma process_chunks_all_accepted:
  assumes "\<forall>m<length ps. accepted env (chunk_index st + m + 1) title (ps ! m)"
  shows "\<exists>s. process_chunks env title ps st = Exhausted s \<and>
             length (staged s) = length (staged st) + length ps"
  using process_chunks_reaches [of "length ps" ps env st title] assms by auto

text \<open>
  Claim C8 says that no error in one document or chunk ends the run. The cell catches
  no exception. In the sample directory the embedding service fails on the text of
  \<open>c.csv\<close>: a run over \<open>c.csv\<close> and then \<open>b.csv\<close> ends with the exception and writes
  nothing, although a run over \<open>b.csv\<close> alone writes its chunk.
\<close>

theorem failures_abort_the_run:
  "run_ingestion sample_env [''c.csv'', ''b.csv''] =
     Raised ServiceFailure
       \<lparr>chunk_index = 1, uuids_drawn = 0, embed_requests = [''unavailable''], staged = []\<rparr> \<and>
   run_ingestion sample_env [''b.csv''] =
     Finished
       \<lparr>chunk_index = 1, uuids_drawn = 1, embed_requests = [''Second doc''],
        staged = [(''./data/chunks//chunk_1_b.json'',
                   \<lparr>chunk_id = ''uuid-0'', page_title = ''b'', chunk_title = ''Second doc'',
                    chunk_content = ''Second doc'', vector = [10]\<rparr>)]\<rparr>"
  by code_simp

text \<open>
  Claim C8, amended. Let the run have reached a name \<open>f\<close> of the listing in state
  \<open>st1\<close>. If \<open>f\<close> has no supported suffix it is passed over. If \<open>f\<close> has a supported
  suffix and its chunks up to a position \<open>i\<close> are accepted, then: when the chunk at
  \<open>i\<close> is over the limit, or when \<open>i\<close> is the end of the document, the run goes on
  with the names after \<open>f\<close>, \<open>i\<close> more files written; when the embedding call fails
  on the chunk at \<open>i\<close>, or its chunk file cannot be written, the run ends with that
  exception whatever names follow, \<open>i\<close> more files written. If extraction raises, the
  run ends with that exception in state \<open>st1\<close>.
\<close>

theorem exceptions_end_the_run:
  assumes "ingest env pre st = Finished st1"
  shows "(\<not> endswith_any f suported_file_types \<longrightarrow>
            ingest env (pre @ f # post) st = ingest env post st1) \<and>
         (endswith_any f suported_file_types \<and>
          extract_text_from_file env (input_directory @ f) = Inl e \<longrightarrow>
            ingest env (pre @ f # post) st = Raised e st1) \<and>
         (endswith_any f suported_file_types \<and>
          extract_text_from_file env (input_directory @ f) = Inr (Some ps) \<and>
          i \<le> length ps \<and>
          (\<forall>m<i. accepted env (chunk_index st1 + m + 1) (splitext_root f) (ps ! m)) \<longrightarrow>
            (i < length ps \<and> chunk_overflows (ps ! i) \<or> i = length ps \<longrightarrow>
               (\<exists>st2. ingest env (pre @ f # post) st = ingest env post st2 \<and>
                      length (staged st2) = length (staged st1) + i)) \<and>
            (i < length ps \<and> \<not> chunk_overflows (ps ! i) \<and> \<not> embeds env (ps ! i) \<longrightarrow>
               (\<exists>st2. ingest env (pre @ f # post) st = Raised ServiceFailure st2 \<and>
                      length (staged st2) = length (staged st1) + i)) \<and>
            (i < length ps \<and> \<not> chunk_overflows (ps ! i) \<and> embeds env (ps ! i) \<and>
             \<not> writable env (staging_path (chunk_index st1 + i + 1) (splitext_root f)) \<longrightarrow>
               (\<exists>st2. ingest env (pre @ f # post) st = Raised OSError st2 \<and>
                      length (staged st2) = length (staged st1) + i)))"
proof -
  have step: "ingest env (pre @ f # post) st =
      (case process_document env f st1 of
         Raised e s \<Rightarrow> Raised e s | Finished s \<Rightarrow> ingest env post s)"
    using assms by (simp add: ingest_append)
  have doc: "process_document env f st1 =
      (case process_chunks env (splitext_root f) ps st1 of
         Exhausted s \<Rightarrow> Finished s | Break s \<Rightarrow> Finished s
       | Raised_in_loop e s \<Rightarrow> Raised e s)"
    if "endswith_any f suported_file_types"
       "extract_text_from_file env (input_directory @ f) = Inr (Some ps)"
    using that by (simp add: process_document_def)
  show ?thesis
  proof (intro conjI impI)
    assume "\<not> endswith_any f suported_file_types"
    then show "ingest env (pre @ f # post) st = ingest env post st1"
      unfolding step by (simp add: process_document_def)
  next
    assume "endswith_any f suported_file_types \<and>
          extract_text_from_file env (input_directory @ f) = Inl e"
    then show "ingest env (pre @ f # post) st = Raised e st1"
      unfolding step by (simp add: process_document_def)
  next
    assume a: "endswith_any f suported_file_types \<and>
          extract_text_from_file env (input_directory @ f) = Inr (Some ps) \<and>
          i \<le> length ps \<and>
          (\<forall>m<i. accepted env (chunk_index st1 + m + 1) (splitext_root f) (ps ! m))"
      and b: "i < length ps \<and> chunk_overflows (ps ! i) \<or> i = length ps"
    from b consider "i < length ps" "chunk_overflows (ps ! i)" | "i = length ps" by blast
    then obtain s where "process_document env f st1 = Finished s"
      "length (staged s) = length (staged st1) + i"
    proof cases
      case 1
      with a obtain s where "process_chunks env (splitext_root f) ps st1 = Break s"
        "length (staged s) = length (staged st1) + i"
        using process_chunks_overflow_breaks [of i ps env st1 "splitext_root f"] by blast
      then show ?thesis using that doc a by simp
    next
      case 2
      with a obtain s where "process_chunks env (splitext_root f) ps st1 = Exhausted s"
        "length (staged s) = length (staged st1) + i"
        using process_chunks_all_accepted [of ps env st1 "splitext_root f"] by blast
      then show ?thesis using that doc a by simp
    qed
    then show "\<exists>st2. ingest env (pre @ f # post) st = ingest env post st2 \<and>
                      length (staged st2) = length (staged st1) + i"
      unfolding step by auto
  next
    assume a: "endswith_any f suported_file_types \<and>
          extract_text_from_file env (input_directory @ f) = Inr (Some ps) \<and>
          i \<le> length ps \<and>
          (\<forall>m<i. accepted env (chunk_index st1 + m + 1) (splitext_root f) (ps ! m))"
      and b: "i < length ps \<and> \<not> chunk_overflows (ps ! i) \<and> \<not> embeds env (ps ! i)"
    then obtain s where
      "process_chunks env (splitext_root f) ps st1 = Raised_in_loop ServiceFailure s"
      "length (staged s) = length (staged st1) + i"
      using process_chunks_embed_raises [of i ps env st1 "splitext_root f"] by blast
    then show "\<exists>st2. ingest env (pre @ f # post) st = Raised ServiceFailure st2 \<and>
                      length (staged st2) = length (staged st1) + i"
      unfolding step using doc a by simp
  next
    assume a: "endswith_any f suported_file_types \<and>
          extract_text_from_file env (input_directory @ f) = Inr (Some ps) \<and>
          i \<le> length ps \<and>
          (\<forall>m<i. accepted env (chunk_index st1 + m + 1) (splitext_root f) (ps ! m))"
      and b: "i < length ps \<and> \<not> chunk_overflows (ps ! i) \<and> embeds env (ps ! i) \<and>
             \<not> writable env (staging_path (chunk_index st1 + i + 1) (splitext_root f))"
    then obtain s where
      "process_chunks env (splitext_root f) ps st1 = Raised_in_loop OSError s"
      "length (staged s) = length (staged st1) + i"
      using process_chunks_write_raises [of i ps env st1 "splitext_root f"] by blast
    then show "\<exists>st2. ingest env (pre @ f # post) st = Raised OSError st2 \<and>
                      length (staged st2) = length (staged st1) + i"
      unfolding step using doc a by simp
  qed
qed

theorem exceptions_end_the_run_witness:
  "ingest sample_env [''notes.txt''] initial_state = Finished initial_state \<and>
   \<not> endswith_any ''notes.txt'' suported_file_types \<and>
   ingest sample_env ([''notes.txt''] @ ''notes.txt'' # [''b.csv'']) initial_state
     = ingest sample_env [''b.csv''] initial_state \<and>
   endswith_any ''missing.csv'' suported_file_types \<and>
   extract_text_from_file sample_env (input_directory @ ''missing.csv'')
     = Inl (FileNotFoundError (input_directory @ ''missing.csv'')) \<and>
   ingest sample_env ([''notes.txt''] @ ''missing.csv'' # [''b.csv'']) initial_state
     = Raised (FileNotFoundError (input_directory @ ''missing.csv'')) initial_state \<and>
   endswith_any ''a.csv'' suported_file_types \<and>
   extract_text_from_file sample_env (input_directory @ ''a.csv'')
     = Inr (Some [''Intro.'', long_chunk, ''Tail'']) \<and>
   accepted sample_env (chunk_index (initial_state :: nat list state) + 0 + 1)
     (splitext_root ''a.csv'') ([''Intro.'', long_chunk, ''Tail''] ! 0) \<and>
   chunk_overflows ([''Intro.'', long_chunk, ''Tail''] ! 1) \<and>
   (\<exists>st2. ingest sample_env ([''notes.txt''] @ ''a.csv'' # [''b.csv'']) initial_state
            = ingest sample_env [''b.csv''] st2 \<and>
          length (staged st2) = length (staged (initial_state :: nat list state)) + 1) \<and>
   endswith_any ''b.csv'' suported_file_types \<and>
   extract_text_from_file sample_env (input_directory @ ''b.csv'') = Inr (Some [''Second doc'']) \<and>
   accepted sample_env (chunk_index (initial_state :: nat list state) + 0 + 1)
     (splitext_root ''b.csv'') ([''Second doc''] ! 0) \<and>
   (\<exists>st2. ingest sample_env ([''notes.txt''] @ ''b.csv'' # [''a.csv'']) initial_state
            = ingest sample_env [''a.csv''] st2 \<and>
          length (staged st2) = length (staged (initial_state :: nat list state)) + 1) \<and>
   endswith_any ''c.csv'' suported_file_types \<and>
   extract_text_from_file sample_env (input_directory @ ''c.csv'') = Inr (Some [''unavailable'']) \<and>
   \<not> chunk_overflows ([''unavailable''] ! 0) \<and>
   \<not> embeds sample_env ([''unavailable''] ! 0) \<and>
   (\<exists>st2. ingest sample_env ([''notes.txt''] @ ''c.csv'' # [''b.csv'']) initial_state
            = Raised ServiceFailure st2 \<and>
          length (staged st2) = length (staged (initial_state :: nat list state)) + 0) \<and>
   endswith_any ''w.csv'' suported_file_types \<and>
   extract_text_from_file sample_env (input_directory @ ''w.csv'') = Inr (Some [''Locked'']) \<and>
   \<not> chunk_overflows ([''Locked''] ! 0) \<and> embeds sample_env ([''Locked''] ! 0) \<and>
   \<not> writable sample_env
       (staging_path (chunk_index (initial_state :: nat list state) + 0 + 1)
          (splitext_root ''w.csv'')) \<and>
   (\<exists>st2. ingest sample_env ([''notes.txt''] @ ''w.csv'' # [''b.csv'']) initial_state
            = Raised OSError st2 \<and>
          length (staged st2) = length (staged (initial_state :: nat list state)) + 0)"
proof -
  have p: "ingest sample_env [''notes.txt''] initial_state = Finished initial_state"
    by (simp add: process_document_def sample_supported)
  have acc_a: "\<forall>m<1. accepted sample_env (chunk_index (initial_state :: nat list state) + m + 1)
       (splitext_root ''a.csv'') ([''Intro.'', long_chunk, ''Tail''] ! m)"
    by (simp add: initial_state_def sample_titles accepted_def chunk_overflows_def embeds_def
        sample_contents sample_tokens sample_embeddings MAX_INPUT_TOKENS_def sample_writable
        staging_path_def sample_file_names output_directory_def)
  have acc_b: "\<forall>m<1. accepted sample_env (chunk_index (initial_state :: nat list state) + m + 1)
       (splitext_root ''b.csv'') ([''Second doc''] ! m)"
    by (simp add: initial_state_def sample_titles accepted_def chunk_overflows_def embeds_def
        sample_contents sample_tokens sample_embeddings MAX_INPUT_TOKENS_def sample_writable
        staging_path_def sample_file_names output_directory_def)
  have ov: "chunk_overflows ([''Intro.'', long_chunk, ''Tail''] ! 1)"
    by (simp add: long_chunk_overflows)
  have c: "\<not> chunk_overflows ([''unavailable''] ! 0)"
    "\<not> embeds sample_env ([''unavailable''] ! 0)"
    by (simp_all add: chunk_overflows_def embeds_def sample_contents sample_tokens
        sample_embeddings MAX_INPUT_TOKENS_def)
  have w: "\<not> chunk_overflows ([''Locked''] ! 0)" "embeds sample_env ([''Locked''] ! 0)"
    "\<not> writable sample_env
       (staging_path (chunk_index (initial_state :: nat list state) + 0 + 1)
          (splitext_root ''w.csv''))"
    by (simp_all add: chunk_overflows_def embeds_def sample_contents sample_tokens
        sample_embeddings MAX_INPUT_TOKENS_def initial_state_def sample_titles sample_writable
        staging_path_def sample_file_names output_directory_def)
  note t = exceptions_end_the_run [OF p]
  have 1: "ingest sample_env ([''notes.txt''] @ ''notes.txt'' # [''b.csv'']) initial_state
     = ingest sample_env [''b.csv''] initial_state"
    using t [where f = "''notes.txt''" and post = "[''b.csv'']", THEN conjunct1]
      sample_supported(1) by blast
  have 2: "ingest sample_env ([''notes.txt''] @ ''missing.csv'' # [''b.csv'']) initial_state
     = Raised (FileNotFoundError (input_directory @ ''missing.csv'')) initial_state"
    using t [where f = "''missing.csv''" and post = "[''b.csv'']"
               and e = "FileNotFoundError (input_directory @ ''missing.csv'')",
             THEN conjunct2, THEN conjunct1]
      sample_supported(8) sample_extracts(5) by blast
  have 3: "\<exists>st2. ingest sample_env ([''notes.txt''] @ ''a.csv'' # [''b.csv'']) initial_state
            = ingest sample_env [''b.csv''] st2 \<and>
          length (staged st2) = length (staged (initial_state :: nat list state)) + 1"
    using t [where f = "''a.csv''" and post = "[''b.csv'']"
               and ps = "[''Intro.'', long_chunk, ''Tail'']" and i = 1,
             THEN conjunct2, THEN conjunct2]
      sample_supported(2) sample_paragraphs acc_a ov by simp
  have 4: "\<exists>st2. ingest sample_env ([''notes.txt''] @ ''b.csv'' # [''a.csv'']) initial_state
            = ingest sample_env [''a.csv''] st2 \<and>
          length (staged st2) = length (staged (initial_state :: nat list state)) + 1"
    using t [where f = "''b.csv''" and post = "[''a.csv'']"
               and ps = "[''Second doc'']" and i = 1,
             THEN conjunct2, THEN conjunct2]
      sample_supported(3) sample_extracts(1) acc_b by simp
  have 5: "\<exists>st2. ingest sample_env ([''notes.txt''] @ ''c.csv'' # [''b.csv'']) initial_state
            = Raised ServiceFailure st2 \<and>
          length (staged st2) = length (staged (initial_state :: nat list state)) + 0"
    using t [where f = "''c.csv''" and post = "[''b.csv'']"
               and ps = "[''unavailable'']" and i = 0,
             THEN conjunct2, THEN conjunct2]
      sample_supported(4) sample_extracts(2) c by simp
  have 6: "\<exists>st2. ingest sample_env ([''notes.txt''] @ ''w.csv'' # [''b.csv'']) initial_state
            = Raised OSError st2 \<and>
          length (staged st2) = length (staged (initial_state :: nat list state)) + 0"
    using t [where f = "''w.csv''" and post = "[''b.csv'']"
               and ps = "[''Locked'']" and i = 0,
             THEN conjunct2, THEN conjunct2]
      sample_supported(7) sample_extracts(4) w by simp
  have a0: "accepted sample_env (chunk_index (initial_state :: nat list state) + 0 + 1)
     (splitext_root ''a.csv'') ([''Intro.'', long_chunk, ''Tail''] ! 0)"
    using acc_a by simp
  have b0: "accepted sample_env (chunk_index (initial_state :: nat list state) + 0 + 1)
     (splitext_root ''b.csv'') ([''Second doc''] ! 0)"
    using acc_b by simp
  show ?thesis
    using p sample_supported sample_extracts sample_paragraphs a0 b0 ov c w 1 2 3 4 5 6
    by (intro conjI)
qed

end
